theory Spec2Isabelle
  imports Main "HOL-Library.AList" "HOL-Library.Word"
begin

section \<open>The file cache service of rive-angular\<close>

text \<open>
  A shallow embedding of \<^verbatim>\<open>RiveFileService\<close> (the revision with the in-flight table
  \<^verbatim>\<open>pendingLoads\<close> and the buffer counter \<^verbatim>\<open>bufferIdCounter\<close>). The service is
  single-threaded JavaScript: every public method and every notification handler runs
  to completion, so each is a function from the world before to the world after.

  Objects that the service only holds references to (buffers, signals, promises, file
  handles) live in stores of the world and are named by natural numbers. The calls the
  service makes on its collaborators (the \<^verbatim>\<open>RiveFile\<close> runtime and the console) and
  the notifications the runtime delivers are recorded, in order, in a trace.

  What the collaborators do is a parameter of each operation: whether the constructor
  or \<open>init\<close> throws, whether \<open>getInstance\<close> or \<open>cleanup\<close> throws. Subscribing
  (\<^verbatim>\<open>file.on\<close>) does not throw. The runtime delivers notifications between operations,
  to subscribed handles, at most one per handle. Numbers are exact: \<open>refCount\<close> is an
  integer and the buffer counter a natural number (a JavaScript number counts exactly
  up to \<open>2\<^sup>5\<^sup>3\<close>).
\<close>

subsection \<open>Data model\<close>

datatype FileStatus = Idle | Loading | Success | Failed

text \<open>\<^verbatim>\<open>Signal<RiveFileState>\<close>: the read-only view of a signal node.\<close>

datatype Signal = ReadonlySignal (node: nat)

record RiveFileState =
  riveFile :: "nat option"
  status :: FileStatus

record RiveFileParams =
  src :: "string option"
  buffer :: "nat option"

record CacheEntry =
  entryFile :: nat
  state :: Signal
  refCount :: int

record PendingLoad =
  stateSignal :: nat
  promise :: nat

text \<open>
  An \<^verbatim>\<open>ArrayBuffer\<close> object: its bytes, and the expando property
  \<^verbatim>\<open>__riveBufferId\<close> that \<^verbatim>\<open>getCacheKey\<close> stores on it.
\<close>

record ArrayBuffer =
  bytes :: "8 word list"
  riveBufferId :: "nat option"

datatype PromiseState = Pending | Resolved | Rejected

datatype EventType = Load | LoadError

text \<open>
  The variables captured by the two handlers that \<^verbatim>\<open>loadRiveFile\<close> subscribes:
  \<^verbatim>\<open>file\<close>, \<^verbatim>\<open>stateSignal\<close>, \<^verbatim>\<open>cacheKey\<close> and \<^verbatim>\<open>resolve\<close>.
\<close>

record Closure =
  cl_file :: nat
  cl_stateSignal :: nat
  cl_cacheKey :: string
  cl_resolve :: nat

text \<open>
  The trace. A call on a collaborator is recorded when it is made; the flag of
  \<open>Init\<close>, \<open>GetInstance\<close> and \<open>Cleanup\<close> tells whether the call threw, and
  \<open>Construct\<close> carries the new handle, or \<open>None\<close> when the constructor threw.
  \<open>Notify\<close> records a notification delivered by the runtime.
\<close>

datatype Effect =
    Construct RiveFileParams "nat option"
  | Init nat bool
  | On nat EventType
  | GetInstance nat bool
  | Cleanup nat bool
  | ConsoleWarn
  | ConsoleError
  | Notify nat EventType

datatype error = Error

record World =
  cache :: "(string \<times> CacheEntry) list"
  pendingLoads :: "(string \<times> PendingLoad) list"
  bufferIdCounter :: nat
  heap :: "nat \<Rightarrow> ArrayBuffer"
  signals :: "RiveFileState list"
  promises :: "PromiseState list"
  handles :: nat
  listeners :: "((nat \<times> EventType) \<times> Closure) list"
  trace :: "Effect list"

text \<open>
  A new service in a world whose buffers carry no tag yet. The two tables are JavaScript
  \<^verbatim>\<open>Map\<close>s, which iterate in insertion order: association lists with
  \<open>AList.update\<close> (\<^verbatim>\<open>set\<close>), \<open>AList.delete\<close> (\<^verbatim>\<open>delete\<close>) and \<open>map_of\<close>
  (\<^verbatim>\<open>get\<close>).
\<close>

definition initWorld :: "(nat \<Rightarrow> 8 word list) \<Rightarrow> World" where
  "initWorld content =
     \<lparr> cache = [], pendingLoads = [], bufferIdCounter = 0,
       heap = (\<lambda>b. \<lparr> bytes = content b, riveBufferId = None \<rparr>),
       signals = [], promises = [], handles = 0, listeners = [], trace = [] \<rparr>"

subsection \<open>Collaborators\<close>

text \<open>
  How the handle constructed by one \<^verbatim>\<open>loadFile\<close> call behaves while it is set up:
  the constructor throws, \<^verbatim>\<open>init()\<close> throws, or the asynchronous load starts.
\<close>

datatype Behaviour = CtorThrows | InitThrows | Starts

definition logEffect :: "Effect \<Rightarrow> World \<Rightarrow> World" where
  "logEffect e w = w\<lparr> trace := trace w @ [e] \<rparr>"

definition RiveFile_new :: "RiveFileParams \<Rightarrow> Behaviour \<Rightarrow> World \<Rightarrow> (error + nat) \<times> World" where
  "RiveFile_new params beh w =
     (if beh = CtorThrows then (Inl Error, logEffect (Construct params None) w)
      else (Inr (handles w),
            logEffect (Construct params (Some (handles w))) (w\<lparr> handles := handles w + 1 \<rparr>)))"

definition RiveFile_init :: "nat \<Rightarrow> Behaviour \<Rightarrow> World \<Rightarrow> (error + unit) \<times> World" where
  "RiveFile_init f beh w =
     (if beh = InitThrows then (Inl Error, logEffect (Init f True) w)
      else (Inr (), logEffect (Init f False) w))"

text \<open>
  \<^verbatim>\<open>file.on(type, callback)\<close>. The service subscribes each handle once for each of
  the two event types, so the listener table is keyed by handle and event type.
\<close>

definition RiveFile_on :: "nat \<Rightarrow> EventType \<Rightarrow> Closure \<Rightarrow> World \<Rightarrow> World" where
  "RiveFile_on f ev c w =
     logEffect (On f ev) (w\<lparr> listeners := AList.update (f, ev) c (listeners w) \<rparr>)"

definition RiveFile_getInstance :: "nat \<Rightarrow> bool \<Rightarrow> World \<Rightarrow> (error + unit) \<times> World" where
  "RiveFile_getInstance f throws w =
     ((if throws then Inl Error else Inr ()), logEffect (GetInstance f throws) w)"

definition RiveFile_cleanup :: "nat \<Rightarrow> bool \<Rightarrow> World \<Rightarrow> (error + unit) \<times> World" where
  "RiveFile_cleanup f throws w =
     ((if throws then Inl Error else Inr ()), logEffect (Cleanup f throws) w)"

text \<open>Angular signals: \<^verbatim>\<open>signal(v)\<close>, \<^verbatim>\<open>set\<close>, the memoised \<^verbatim>\<open>asReadonly()\<close>, and a read.\<close>

definition signal :: "RiveFileState \<Rightarrow> World \<Rightarrow> nat \<times> World" where
  "signal v w = (length (signals w), w\<lparr> signals := signals w @ [v] \<rparr>)"

definition signal_set :: "nat \<Rightarrow> RiveFileState \<Rightarrow> World \<Rightarrow> World" where
  "signal_set n v w = w\<lparr> signals := (signals w)[n := v] \<rparr>"

definition asReadonly :: "nat \<Rightarrow> Signal" where
  "asReadonly n = ReadonlySignal n"

definition readSignal :: "Signal \<Rightarrow> World \<Rightarrow> RiveFileState option" where
  "readSignal s w = (if node s < length (signals w) then Some (signals w ! node s) else None)"

text \<open>
  Promises: a settled promise stays as it is; \<^verbatim>\<open>new Promise(executor)\<close> runs the
  executor at once and rejects the promise when the executor throws.
\<close>

definition settle :: "nat \<Rightarrow> PromiseState \<Rightarrow> World \<Rightarrow> World" where
  "settle p st w =
     (if p < length (promises w) \<and> promises w ! p = Pending
      then w\<lparr> promises := (promises w)[p := st] \<rparr> else w)"

definition Promise_new :: "(nat \<Rightarrow> World \<Rightarrow> (error + unit) \<times> World) \<Rightarrow> World \<Rightarrow> nat \<times> World" where
  "Promise_new executor w =
     (let p = length (promises w);
          w1 = w\<lparr> promises := promises w @ [Pending] \<rparr>
      in case executor p w1 of
           (Inl e, w2) \<Rightarrow> (p, settle p Rejected w2)
         | (Inr u, w2) \<Rightarrow> (p, w2))"

subsection \<open>Cache keys\<close>

text \<open>The decimal digits of a number, as a template literal prints a counter value.\<close>

function decimal :: "nat \<Rightarrow> string" where
  "decimal n = (if n < 10 then [char_of (48 + n)] else decimal (n div 10) @ [char_of (48 + n mod 10)])"
  by pat_completeness auto
termination
  by (relation "measure id") auto

declare decimal.simps [simp del]

text \<open>JavaScript truthiness of an optional string and of an optional number.\<close>

definition truthyString :: "string option \<Rightarrow> string option" where
  "truthyString v = (case v of None \<Rightarrow> None | Some s \<Rightarrow> (if s = [] then None else Some s))"

definition truthyNumber :: "nat option \<Rightarrow> nat option" where
  "truthyNumber v = (case v of None \<Rightarrow> None | Some n \<Rightarrow> (if n = 0 then None else Some n))"

definition getCacheKey :: "RiveFileParams \<Rightarrow> World \<Rightarrow> string \<times> World" where
  "getCacheKey params w =
     (case truthyString (src params) of
        Some s \<Rightarrow> (''src:'' @ s, w)
      | None \<Rightarrow>
         (case buffer params of
            Some b \<Rightarrow>
              (case truthyNumber (riveBufferId (heap w b)) of
                 Some n \<Rightarrow> (''buffer:'' @ decimal n, w)
               | None \<Rightarrow>
                  (let n = bufferIdCounter w + 1
                   in (''buffer:'' @ decimal n,
                       w\<lparr> bufferIdCounter := n,
                          heap := (heap w)(b := (heap w b)\<lparr> riveBufferId := Some n \<rparr>) \<rparr>)))
          | None \<Rightarrow> (''unknown'', w)))"

subsection \<open>Loading\<close>

definition console_error :: "World \<Rightarrow> World" where
  "console_error w = logEffect ConsoleError w"

definition console_warn :: "World \<Rightarrow> World" where
  "console_warn w = logEffect ConsoleWarn w"

text \<open>The handler subscribed for \<^verbatim>\<open>EventType.Load\<close>.\<close>

definition onLoad :: "Closure \<Rightarrow> bool \<Rightarrow> World \<Rightarrow> (error + unit) \<times> World" where
  "onLoad c getInstanceThrows w =
     (case RiveFile_getInstance (cl_file c) getInstanceThrows w of
        (Inl e, w1) \<Rightarrow> (Inl e, w1)
      | (Inr u, w1) \<Rightarrow>
         (let w2 = signal_set (cl_stateSignal c) \<lparr> riveFile = Some (cl_file c), status = Success \<rparr> w1;
              w3 = w2\<lparr> cache := AList.update (cl_cacheKey c)
                          \<lparr> entryFile = cl_file c, state = asReadonly (cl_stateSignal c), refCount = 1 \<rparr>
                          (cache w2) \<rparr>;
              w4 = w3\<lparr> pendingLoads := AList.delete (cl_cacheKey c) (pendingLoads w3) \<rparr>
          in (Inr (), settle (cl_resolve c) Resolved w4)))"

text \<open>The handler subscribed for \<^verbatim>\<open>EventType.LoadError\<close>.\<close>

definition onLoadError :: "Closure \<Rightarrow> World \<Rightarrow> (error + unit) \<times> World" where
  "onLoadError c w =
     (let w1 = signal_set (cl_stateSignal c) \<lparr> riveFile = None, status = Failed \<rparr> w;
          w2 = w1\<lparr> pendingLoads := AList.delete (cl_cacheKey c) (pendingLoads w1) \<rparr>
      in (Inr (), settle (cl_resolve c) Resolved w2))"

text \<open>The \<^verbatim>\<open>try\<close> block of \<^verbatim>\<open>loadRiveFile\<close>, and the executor with its \<^verbatim>\<open>catch\<close>.\<close>

definition loadRiveFile_try ::
  "RiveFileParams \<Rightarrow> nat \<Rightarrow> string \<Rightarrow> Behaviour \<Rightarrow> nat \<Rightarrow> World \<Rightarrow> (error + unit) \<times> World" where
  "loadRiveFile_try params sig cacheKey beh resolve w =
     (case RiveFile_new params beh w of
        (Inl e, w1) \<Rightarrow> (Inl e, w1)
      | (Inr f, w1) \<Rightarrow>
         (case RiveFile_init f beh w1 of
            (Inl e, w2) \<Rightarrow> (Inl e, w2)
          | (Inr u, w2) \<Rightarrow>
             (let c = \<lparr> cl_file = f, cl_stateSignal = sig, cl_cacheKey = cacheKey, cl_resolve = resolve \<rparr>;
                  w3 = RiveFile_on f Load c w2;
                  w4 = RiveFile_on f LoadError c w3
              in (Inr (), w4))))"

definition loadRiveFile_executor ::
  "RiveFileParams \<Rightarrow> nat \<Rightarrow> string \<Rightarrow> Behaviour \<Rightarrow> nat \<Rightarrow> World \<Rightarrow> (error + unit) \<times> World" where
  "loadRiveFile_executor params sig cacheKey beh resolve w =
     (case loadRiveFile_try params sig cacheKey beh resolve w of
        (Inr u, w1) \<Rightarrow> (Inr u, w1)
      | (Inl e, w1) \<Rightarrow>
         (let w2 = console_error w1;
              w3 = signal_set sig \<lparr> riveFile = None, status = Failed \<rparr> w2;
              w4 = w3\<lparr> pendingLoads := AList.delete cacheKey (pendingLoads w3) \<rparr>
          in (Inr (), settle resolve Resolved w4)))"

definition loadRiveFile :: "RiveFileParams \<Rightarrow> nat \<Rightarrow> string \<Rightarrow> Behaviour \<Rightarrow> World \<Rightarrow> nat \<times> World" where
  "loadRiveFile params sig cacheKey beh w =
     Promise_new (loadRiveFile_executor params sig cacheKey beh) w"

definition loadFile :: "RiveFileParams \<Rightarrow> Behaviour \<Rightarrow> World \<Rightarrow> (error + Signal) \<times> World" where
  "loadFile params beh w =
     (case getCacheKey params w of (cacheKey, w1) \<Rightarrow>
        (case map_of (cache w1) cacheKey of
           Some cached \<Rightarrow>
             (Inr (state cached),
              w1\<lparr> cache := AList.update cacheKey (cached\<lparr> refCount := refCount cached + 1 \<rparr>) (cache w1) \<rparr>)
         | None \<Rightarrow>
            (case map_of (pendingLoads w1) cacheKey of
               Some pending \<Rightarrow> (Inr (asReadonly (stateSignal pending)), w1)
             | None \<Rightarrow>
                (case signal \<lparr> riveFile = None, status = Loading \<rparr> w1 of (sig, w2) \<Rightarrow>
                   (case loadRiveFile params sig cacheKey beh w2 of (p, w3) \<Rightarrow>
                      (Inr (asReadonly sig),
                       w3\<lparr> pendingLoads :=
                             AList.update cacheKey \<lparr> stateSignal = sig, promise = p \<rparr> (pendingLoads w3) \<rparr>))))))"

subsection \<open>Releasing\<close>

text \<open>One \<^verbatim>\<open>try { file.cleanup() } catch { console.warn(...) }\<close>.\<close>

definition tryCleanup :: "nat \<Rightarrow> bool \<Rightarrow> World \<Rightarrow> World" where
  "tryCleanup f throws w =
     (case RiveFile_cleanup f throws w of
        (Inl e, w1) \<Rightarrow> console_warn w1
      | (Inr u, w1) \<Rightarrow> w1)"

definition releaseFile :: "RiveFileParams \<Rightarrow> bool \<Rightarrow> World \<Rightarrow> (error + unit) \<times> World" where
  "releaseFile params cleanupThrows w =
     (case getCacheKey params w of (cacheKey, w1) \<Rightarrow>
        (case map_of (cache w1) cacheKey of
           None \<Rightarrow> (Inr (), w1)
         | Some cached \<Rightarrow>
            (let cached' = cached\<lparr> refCount := refCount cached - 1 \<rparr>;
                 w2 = w1\<lparr> cache := AList.update cacheKey cached' (cache w1) \<rparr>
             in if refCount cached' \<le> 0
                then (let w3 = tryCleanup (entryFile cached') cleanupThrows w2
                      in (Inr (), w3\<lparr> cache := AList.delete cacheKey (cache w3) \<rparr>))
                else (Inr (), w2))))"

text \<open>\<^verbatim>\<open>cache.forEach\<close> visits the entries in insertion order.\<close>

fun cleanupEach :: "(string \<times> CacheEntry) list \<Rightarrow> (nat \<Rightarrow> bool) \<Rightarrow> World \<Rightarrow> World" where
  "cleanupEach [] throws w = w"
| "cleanupEach (ke # rest) throws w =
     cleanupEach rest throws (tryCleanup (entryFile (snd ke)) (throws (entryFile (snd ke))) w)"

definition clearCache :: "(nat \<Rightarrow> bool) \<Rightarrow> World \<Rightarrow> (error + unit) \<times> World" where
  "clearCache throws w = (Inr (), (cleanupEach (cache w) throws w)\<lparr> cache := [] \<rparr>)"

subsection \<open>Notifications and runs\<close>

text \<open>
  The runtime delivers a notification for a handle by calling the handler subscribed
  for it. An error thrown by the handler goes back to the runtime.
\<close>

definition notify :: "nat \<Rightarrow> EventType \<Rightarrow> bool \<Rightarrow> World \<Rightarrow> World" where
  "notify f ev getInstanceThrows w =
     (let w1 = logEffect (Notify f ev) w
      in case map_of (listeners w1) (f, ev) of
           None \<Rightarrow> w1
         | Some c \<Rightarrow>
            (case ev of
               Load \<Rightarrow> snd (onLoad c getInstanceThrows w1)
             | LoadError \<Rightarrow> snd (onLoadError c w1)))"

text \<open>
  The operations of a run, each with the behaviour of the collaborators during it. A
  notification is delivered only for a subscribed handle, and at most one per handle.
\<close>

datatype Op =
    LoadFile RiveFileParams Behaviour
  | ReleaseFile RiveFileParams bool
  | ClearCache "nat \<Rightarrow> bool"
  | Fire nat EventType bool

fun exec :: "Op \<Rightarrow> World \<Rightarrow> World" where
  "exec (LoadFile params beh) w = snd (loadFile params beh w)"
| "exec (ReleaseFile params throws) w = snd (releaseFile params throws w)"
| "exec (ClearCache throws) w = snd (clearCache throws w)"
| "exec (Fire f ev throws) w = notify f ev throws w"

definition notified :: "nat \<Rightarrow> World \<Rightarrow> bool" where
  "notified f w = (Notify f Load \<in> set (trace w) \<or> Notify f LoadError \<in> set (trace w))"

fun enabled :: "Op \<Rightarrow> World \<Rightarrow> bool" where
  "enabled (Fire f ev throws) w = (map_of (listeners w) (f, ev) \<noteq> None \<and> \<not> notified f w)"
| "enabled other w = True"

inductive steps :: "World \<Rightarrow> World \<Rightarrow> bool" where
  stay: "steps w w"
| move: "steps w w1 \<Longrightarrow> enabled op w1 \<Longrightarrow> steps w (exec op w1)"

definition reachable :: "World \<Rightarrow> bool" where
  "reachable w = (\<exists>content. steps (initWorld content) w)"

subsection \<open>The earlier revision's keys\<close>

text \<open>
  The earlier revision of the service (\<^verbatim>\<open>libs/rive-angular/src/lib/services/rive-file.service.ts\<close>)
  has no in-flight table and no counter: it derives the key of a buffer from its length
  and changes nothing.
\<close>

definition getCacheKey_byteLength :: "RiveFileParams \<Rightarrow> World \<Rightarrow> string" where
  "getCacheKey_byteLength params w =
     (case truthyString (src params) of
        Some s \<Rightarrow> ''src:'' @ s
      | None \<Rightarrow>
         (case buffer params of
            Some b \<Rightarrow> ''buffer:'' @ decimal (length (bytes (heap w b)))
          | None \<Rightarrow> ''unknown''))"

subsection \<open>Reading the trace\<close>

text \<open>
  The parameters of the constructor calls, and the handles of the \<open>init\<close> and of the
  \<open>cleanup\<close> calls in a trace, in order.
\<close>

fun constructCalls :: "Effect list \<Rightarrow> RiveFileParams list" where
  "constructCalls [] = []"
| "constructCalls (Construct params r # es) = params # constructCalls es"
| "constructCalls (e # es) = constructCalls es"

fun initCalls :: "Effect list \<Rightarrow> nat list" where
  "initCalls [] = []"
| "initCalls (Init f t # es) = f # initCalls es"
| "initCalls (e # es) = initCalls es"

fun cleanupCalls :: "Effect list \<Rightarrow> nat list" where
  "cleanupCalls [] = []"
| "cleanupCalls (Cleanup f t # es) = f # cleanupCalls es"
| "cleanupCalls (e # es) = cleanupCalls es"

text \<open>What \<open>cleanupEach\<close> appends to the trace.\<close>

fun cleanupEffects :: "(string \<times> CacheEntry) list \<Rightarrow> (nat \<Rightarrow> bool) \<Rightarrow> Effect list" where
  "cleanupEffects [] throws = []"
| "cleanupEffects (ke # rest) throws =
     (if throws (entryFile (snd ke)) then [Cleanup (entryFile (snd ke)) True, ConsoleWarn]
      else [Cleanup (entryFile (snd ke)) False]) @ cleanupEffects rest throws"

text \<open>
  A sequence of \<^verbatim>\<open>releaseFile\<close> calls with the same parameters; the list tells for each
  call whether a cleanup made in it throws.
\<close>

fun releaseMany :: "RiveFileParams \<Rightarrow> bool list \<Rightarrow> World \<Rightarrow> World" where
  "releaseMany params [] w = w"
| "releaseMany params (t # ts) w = releaseMany params ts (snd (releaseFile params t w))"

text \<open>A number of \<^verbatim>\<open>loadFile\<close> calls with the same parameters.\<close>

fun loadMany :: "RiveFileParams \<Rightarrow> nat \<Rightarrow> World \<Rightarrow> World" where
  "loadMany params 0 w = w"
| "loadMany params (Suc n) w = loadMany params n (snd (loadFile params Starts w))"

text \<open>Reading a decimal back, to show that \<open>decimal\<close> is injective.\<close>

definition undecimal :: "string \<Rightarrow> nat" where
  "undecimal s = foldl (\<lambda>a c. 10 * a + (of_char c - 48)) 0 s"

subsection \<open>The invariant of reachable worlds\<close>

text \<open>No key is both cached and pending.\<close>

definition disjointTables :: "World \<Rightarrow> bool" where
  "disjointTables w = (\<forall>k. map_of (cache w) k = None \<or> map_of (pendingLoads w) k = None)"

text \<open>Tags are positive, at most the counter, and no two buffers share one.\<close>

definition tagsOk :: "World \<Rightarrow> bool" where
  "tagsOk w =
     ((\<forall>b n. riveBufferId (heap w b) = Some n \<longrightarrow> 0 < n \<and> n \<le> bufferIdCounter w) \<and>
      (\<forall>b b' n. riveBufferId (heap w b) = Some n \<and> riveBufferId (heap w b') = Some n \<longrightarrow> b = b'))"

text \<open>A buffer key in use was made from a tag that has been handed out.\<close>

definition keyBound :: "string \<Rightarrow> World \<Rightarrow> bool" where
  "keyBound k w = (\<forall>n. k = ''buffer:'' @ decimal n \<longrightarrow> n \<le> bufferIdCounter w)"

definition keysOk :: "World \<Rightarrow> bool" where
  "keysOk w =
     ((\<forall>k e. map_of (cache w) k = Some e \<longrightarrow> keyBound k w) \<and>
      (\<forall>k pl. map_of (pendingLoads w) k = Some pl \<longrightarrow> keyBound k w) \<and>
      (\<forall>fe c. map_of (listeners w) fe = Some c \<longrightarrow> keyBound (cl_cacheKey c) w))"

text \<open>
  A subscribed handler belongs to a constructed handle, refers to an existing signal and
  promise, and no two handles share a signal.
\<close>

definition listenersOk :: "World \<Rightarrow> bool" where
  "listenersOk w =
     (\<forall>f ev c. map_of (listeners w) (f, ev) = Some c \<longrightarrow>
        cl_file c = f \<and> f < handles w \<and> cl_stateSignal c < length (signals w) \<and>
        cl_resolve c < length (promises w) \<and>
        (\<forall>f' ev' c'. map_of (listeners w) (f', ev') = Some c' \<and> cl_stateSignal c' = cl_stateSignal c
            \<longrightarrow> f' = f))"

text \<open>
  The cache has one entry per key; an entry was made by the load handler of its handle,
  for its key, and its state reads \<open>Success\<close> with that handle.
\<close>

definition entriesOk :: "World \<Rightarrow> bool" where
  "entriesOk w =
     (distinct (map fst (cache w)) \<and>
      (\<forall>k e. map_of (cache w) k = Some e \<longrightarrow>
         (\<exists>c. map_of (listeners w) (entryFile e, Load) = Some c \<and> cl_cacheKey c = k \<and>
              state e = ReadonlySignal (cl_stateSignal c)) \<and>
         Notify (entryFile e) Load \<in> set (trace w) \<and>
         readSignal (state e) w = Some \<lparr> riveFile = Some (entryFile e), status = Success \<rparr>))"

text \<open>
  A cleaned handle had loaded; a handle is notified at most once and only when
  subscribed; a handle whose \<open>init\<close> threw is never subscribed.
\<close>

definition traceOk :: "World \<Rightarrow> bool" where
  "traceOk w =
     ((\<forall>f t. Cleanup f t \<in> set (trace w) \<longrightarrow> Notify f Load \<in> set (trace w)) \<and>
      (\<forall>f. Notify f Load \<in> set (trace w) \<longrightarrow> Notify f LoadError \<notin> set (trace w)) \<and>
      (\<forall>f ev. Notify f ev \<in> set (trace w) \<longrightarrow> map_of (listeners w) (f, ev) \<noteq> None) \<and>
      (\<forall>f. Init f True \<in> set (trace w) \<longrightarrow> f < handles w \<and> (\<forall>ev. map_of (listeners w) (f, ev) = None)))"

definition promisesOk :: "World \<Rightarrow> bool" where
  "promisesOk w = (Rejected \<notin> set (promises w))"

definition worldInv :: "World \<Rightarrow> bool" where
  "worldInv w =
     (disjointTables w \<and> tagsOk w \<and> keysOk w \<and> listenersOk w \<and> entriesOk w \<and> traceOk w \<and> promisesOk w)"

text \<open>
  A handle that is subscribed and not yet notified is the load in progress for its key:
  the in-flight table holds its state signal and its promise under that key.
\<close>

definition pendingOk :: "World \<Rightarrow> bool" where
  "pendingOk w =
     (\<forall>f ev c. map_of (listeners w) (f, ev) = Some c \<and> \<not> notified f w \<longrightarrow>
        map_of (pendingLoads w) (cl_cacheKey c)
          = Some \<lparr> stateSignal = cl_stateSignal c, promise = cl_resolve c \<rparr>)"

subsection \<open>Example worlds\<close>

text \<open>
  A new service in a world in which every buffer holds the same four bytes, and
  parameter objects for three URLs and for a buffer.
\<close>

definition exampleWorld :: World where
  "exampleWorld = initWorld (\<lambda>b. [0x52, 0x49, 0x56, 0x45])"

definition aRiv :: RiveFileParams where
  "aRiv = \<lparr> src = Some ''a.riv'', buffer = None \<rparr>"

definition bRiv :: RiveFileParams where
  "bRiv = \<lparr> src = Some ''b.riv'', buffer = None \<rparr>"

definition cRiv :: RiveFileParams where
  "cRiv = \<lparr> src = Some ''c.riv'', buffer = None \<rparr>"

definition bufferParams :: "nat \<Rightarrow> RiveFileParams" where
  "bufferParams b = \<lparr> src = None, buffer = Some b \<rparr>"

text \<open>
  After \<^verbatim>\<open>loadFile({src: 'a.riv'})\<close>; after its load has completed; and after a second
  \<^verbatim>\<open>loadFile\<close> of the cached file.
\<close>

definition loadingWorld :: World where
  "loadingWorld = exec (LoadFile aRiv Starts) exampleWorld"

definition loadedWorld :: World where
  "loadedWorld = exec (Fire 0 Load False) loadingWorld"

definition sharedWorld :: World where
  "sharedWorld = exec (LoadFile aRiv Starts) loadedWorld"

text \<open>Two files loaded and cached, and a third still loading.\<close>

definition busyWorld :: World where
  "busyWorld =
     exec (LoadFile cRiv Starts)
       (exec (Fire 1 Load False)
          (exec (LoadFile bRiv Starts) loadedWorld))"

text \<open>A load of \<^verbatim>\<open>a.riv\<close> whose \<open>init\<close> threw.\<close>

definition failedWorld :: World where
  "failedWorld = exec (LoadFile aRiv InitThrows) exampleWorld"

text \<open>
  After the load of \<^verbatim>\<open>b.riv\<close> has failed and the cached \<^verbatim>\<open>a.riv\<close> has been released.
\<close>

definition releasedWorld :: World where
  "releasedWorld =
     exec (ReleaseFile aRiv False)
       (exec (Fire 1 LoadError False)
          (exec (LoadFile bRiv Starts) loadedWorld))"

text \<open>After \<^verbatim>\<open>loadFile\<close> of \<^verbatim>\<open>a.riv\<close> and then of \<^verbatim>\<open>b.riv\<close>, both still loading.\<close>

definition twoLoadingWorld :: World where
  "twoLoadingWorld = exec (LoadFile bRiv Starts) loadingWorld"

section \<open>Cache keys are injective\<close>

lemma undecimal_decimal: "undecimal (decimal n) = n"
proof (induction n rule: decimal.induct)
  case (1 n)
  show ?case
  proof (cases "n < 10")
    case True
    then show ?thesis by (simp add: decimal.simps [of n] undecimal_def)
  next
    case False
    with 1 have ih: "undecimal (decimal (n div 10)) = n div 10" by simp
    have m: "(48 + n mod 10) mod 256 = 48 + n mod 10"
      by (simp add: mod_less) 
    from False have "decimal n = decimal (n div 10) @ [char_of (48 + n mod 10)]"
      by (subst decimal.simps) simp
    then have "undecimal (decimal n) = 10 * undecimal (decimal (n div 10)) + (n mod 10)"
      by (simp add: undecimal_def m)
    with ih show ?thesis by simp
  qed
qed

lemma decimal_inj: "decimal n = decimal m \<Longrightarrow> n = m"
  by (metis undecimal_decimal)

lemma buffer_key_inj [simp]: "(''buffer:'' @ decimal n = ''buffer:'' @ decimal m) = (n = m)"
  by (auto dest: decimal_inj)

lemma key_shapes [simp]:
  "''src:'' @ s \<noteq> ''buffer:'' @ t" "''buffer:'' @ t \<noteq> ''src:'' @ s"
  "''src:'' @ s \<noteq> ''unknown''" "''unknown'' \<noteq> ''src:'' @ s"
  "''buffer:'' @ t \<noteq> ''unknown''" "''unknown'' \<noteq> ''buffer:'' @ t"
  by simp_all

section \<open>What each operation does\<close>

lemmas svc_defs = loadFile_def loadRiveFile_def loadRiveFile_executor_def loadRiveFile_try_def
  Promise_new_def settle_def signal_def signal_set_def asReadonly_def
  RiveFile_new_def RiveFile_init_def RiveFile_on_def
  RiveFile_getInstance_def RiveFile_cleanup_def logEffect_def console_error_def console_warn_def
  onLoad_def onLoadError_def releaseFile_def tryCleanup_def clearCache_def notify_def

lemma getCacheKey_cases:
  assumes "getCacheKey p w = (k, w1)"
  shows "w1 = w \<or>
         (\<exists>b. buffer p = Some b \<and> truthyString (src p) = None
            \<and> truthyNumber (riveBufferId (heap w b)) = None
            \<and> k = ''buffer:'' @ decimal (bufferIdCounter w + 1)
            \<and> w1 = w\<lparr> bufferIdCounter := bufferIdCounter w + 1,
                      heap := (heap w)(b := (heap w b)\<lparr> riveBufferId := Some (bufferIdCounter w + 1) \<rparr>) \<rparr>)"
  using assms by (auto simp: getCacheKey_def Let_def split: option.splits)

lemma getCacheKey_frame:
  assumes "getCacheKey p w = (k, w1)"
  shows "cache w1 = cache w" "pendingLoads w1 = pendingLoads w" "signals w1 = signals w"
    "promises w1 = promises w" "handles w1 = handles w" "listeners w1 = listeners w"
    "trace w1 = trace w"
  using getCacheKey_cases [OF assms] by auto

lemma map_of_None_delete: "map_of al k = None \<Longrightarrow> AList.delete k al = al"
  by (simp add: map_of_eq_None_iff)

lemma loadFile_hit:
  assumes "getCacheKey p w = (k, w1)" "map_of (cache w1) k = Some e"
  shows "loadFile p beh w =
     (Inr (state e), w1\<lparr> cache := AList.update k (e\<lparr> refCount := refCount e + 1 \<rparr>) (cache w1) \<rparr>)"
  using assms getCacheKey_frame [OF assms(1)] by (simp add: loadFile_def)

lemma loadFile_join:
  assumes "getCacheKey p w = (k, w1)" "map_of (cache w1) k = None" "map_of (pendingLoads w1) k = Some pl"
  shows "loadFile p beh w = (Inr (ReadonlySignal (stateSignal pl)), w1)"
  using assms getCacheKey_frame [OF assms(1)] by (simp add: loadFile_def asReadonly_def)

lemma loadFile_miss_Starts:
  assumes "getCacheKey p w = (k, w1)" "map_of (cache w1) k = None" "map_of (pendingLoads w1) k = None"
  shows "loadFile p Starts w =
     (Inr (ReadonlySignal (length (signals w1))),
      w1\<lparr> pendingLoads := AList.update k \<lparr> stateSignal = length (signals w1), promise = length (promises w1) \<rparr> (pendingLoads w1),
          signals := signals w1 @ [\<lparr> riveFile = None, status = Loading \<rparr>],
          promises := promises w1 @ [Pending],
          handles := handles w1 + 1,
          listeners := AList.update (handles w1, LoadError)
              \<lparr> cl_file = handles w1, cl_stateSignal = length (signals w1), cl_cacheKey = k, cl_resolve = length (promises w1) \<rparr>
              (AList.update (handles w1, Load)
                 \<lparr> cl_file = handles w1, cl_stateSignal = length (signals w1), cl_cacheKey = k, cl_resolve = length (promises w1) \<rparr>
                 (listeners w1)),
          trace := trace w1 @ [Construct p (Some (handles w1)), Init (handles w1) False,
                              On (handles w1) Load, On (handles w1) LoadError] \<rparr>)"
  using assms getCacheKey_frame [OF assms(1)] by (simp add: svc_defs Let_def)

lemma loadFile_miss_CtorThrows:
  assumes "getCacheKey p w = (k, w1)" "map_of (cache w1) k = None" "map_of (pendingLoads w1) k = None"
  shows "loadFile p CtorThrows w =
     (Inr (ReadonlySignal (length (signals w1))),
      w1\<lparr> pendingLoads := AList.update k \<lparr> stateSignal = length (signals w1), promise = length (promises w1) \<rparr> (pendingLoads w1),
          signals := signals w1 @ [\<lparr> riveFile = None, status = Failed \<rparr>],
          promises := promises w1 @ [Resolved],
          trace := trace w1 @ [Construct p None, ConsoleError] \<rparr>)"
  using assms getCacheKey_frame [OF assms(1)] by (simp add: svc_defs Let_def map_of_None_delete nth_append)

lemma loadFile_miss_InitThrows:
  assumes "getCacheKey p w = (k, w1)" "map_of (cache w1) k = None" "map_of (pendingLoads w1) k = None"
  shows "loadFile p InitThrows w =
     (Inr (ReadonlySignal (length (signals w1))),
      w1\<lparr> pendingLoads := AList.update k \<lparr> stateSignal = length (signals w1), promise = length (promises w1) \<rparr> (pendingLoads w1),
          signals := signals w1 @ [\<lparr> riveFile = None, status = Failed \<rparr>],
          promises := promises w1 @ [Resolved],
          handles := handles w1 + 1,
          trace := trace w1 @ [Construct p (Some (handles w1)), Init (handles w1) True, ConsoleError] \<rparr>)"
  using assms getCacheKey_frame [OF assms(1)] by (simp add: svc_defs Let_def map_of_None_delete nth_append)

lemma settle_frame [simp]:
  "cache (settle p st w) = cache w" "pendingLoads (settle p st w) = pendingLoads w"
  "bufferIdCounter (settle p st w) = bufferIdCounter w" "heap (settle p st w) = heap w"
  "signals (settle p st w) = signals w" "handles (settle p st w) = handles w"
  "listeners (settle p st w) = listeners w" "trace (settle p st w) = trace w"
  "length (promises (settle p st w)) = length (promises w)"
  by (simp_all add: settle_def)

lemma settle_promises:
  "promises (settle p st w) ! q =
     (if q = p \<and> p < length (promises w) \<and> promises w ! p = Pending then st else promises w ! q)"
  by (simp add: settle_def)

lemma releaseFile_miss:
  assumes "getCacheKey p w = (k, w1)" "map_of (cache w1) k = None"
  shows "releaseFile p t w = (Inr (), w1)"
  using assms by (simp add: releaseFile_def)

lemma releaseFile_keep:
  assumes "getCacheKey p w = (k, w1)" "map_of (cache w1) k = Some e" "1 < refCount e"
  shows "releaseFile p t w =
     (Inr (), w1\<lparr> cache := AList.update k (e\<lparr> refCount := refCount e - 1 \<rparr>) (cache w1) \<rparr>)"
  using assms by (simp add: releaseFile_def Let_def)

lemma releaseFile_drop:
  assumes "getCacheKey p w = (k, w1)" "map_of (cache w1) k = Some e" "refCount e \<le> 1"
  shows "releaseFile p t w =
     (Inr (), w1\<lparr> cache := AList.delete k (cache w1),
                 trace := trace w1 @ (if t then [Cleanup (entryFile e) True, ConsoleWarn]
                                      else [Cleanup (entryFile e) False]) \<rparr>)"
  using assms
  by (simp add: releaseFile_def Let_def tryCleanup_def RiveFile_cleanup_def logEffect_def
        console_warn_def delete_update_same)

lemma cleanupEach_eq: "cleanupEach es t w = w\<lparr> trace := trace w @ cleanupEffects es t \<rparr>"
  by (induction es arbitrary: w)
     (simp_all add: tryCleanup_def RiveFile_cleanup_def logEffect_def console_warn_def)

lemma clearCache_eq:
  "clearCache t w = (Inr (), w\<lparr> cache := [], trace := trace w @ cleanupEffects (cache w) t \<rparr>)"
  by (simp add: clearCache_def cleanupEach_eq)

lemma notify_none:
  assumes "map_of (listeners w) (f, ev) = None"
  shows "notify f ev t w = w\<lparr> trace := trace w @ [Notify f ev] \<rparr>"
  using assms by (simp add: notify_def logEffect_def Let_def)

lemma notify_Load_throws:
  assumes "map_of (listeners w) (f, Load) = Some c"
  shows "notify f Load True w = w\<lparr> trace := trace w @ [Notify f Load, GetInstance (cl_file c) True] \<rparr>"
  using assms by (simp add: notify_def logEffect_def Let_def onLoad_def RiveFile_getInstance_def)

lemma notify_Load_ok:
  assumes "map_of (listeners w) (f, Load) = Some c"
  shows "notify f Load False w =
     settle (cl_resolve c) Resolved
       (w\<lparr> cache := AList.update (cl_cacheKey c)
                      \<lparr> entryFile = cl_file c, state = ReadonlySignal (cl_stateSignal c), refCount = 1 \<rparr>
                      (cache w),
           pendingLoads := AList.delete (cl_cacheKey c) (pendingLoads w),
           signals := (signals w)[cl_stateSignal c := \<lparr> riveFile = Some (cl_file c), status = Success \<rparr>],
           trace := trace w @ [Notify f Load, GetInstance (cl_file c) False] \<rparr>)"
  using assms
  by (simp add: notify_def logEffect_def Let_def onLoad_def RiveFile_getInstance_def
        signal_set_def asReadonly_def settle_def)

lemma notify_LoadError:
  assumes "map_of (listeners w) (f, LoadError) = Some c"
  shows "notify f LoadError t w =
     settle (cl_resolve c) Resolved
       (w\<lparr> pendingLoads := AList.delete (cl_cacheKey c) (pendingLoads w),
           signals := (signals w)[cl_stateSignal c := \<lparr> riveFile = None, status = Failed \<rparr>],
           trace := trace w @ [Notify f LoadError] \<rparr>)"
  using assms
  by (simp add: notify_def logEffect_def Let_def onLoadError_def signal_set_def settle_def)

section \<open>The invariant holds in every reachable world\<close>

lemmas inv_defs = disjointTables_def tagsOk_def keysOk_def listenersOk_def entriesOk_def traceOk_def
  promisesOk_def keyBound_def

lemma inv_initWorld: "worldInv (initWorld content)"
  by (simp add: worldInv_def inv_defs initWorld_def)

lemma truthyNumber_None: "tagsOk w \<Longrightarrow> truthyNumber (riveBufferId (heap w b)) = None \<Longrightarrow> riveBufferId (heap w b) = None"
  by (auto simp: tagsOk_def truthyNumber_def split: option.splits if_splits)

lemma tagsOk_bound: "tagsOk w \<Longrightarrow> riveBufferId (heap w b) = Some n \<Longrightarrow> 0 < n \<and> n \<le> bufferIdCounter w"
  by (simp add: tagsOk_def)

lemma tagsOk_inj: "tagsOk w \<Longrightarrow> riveBufferId (heap w b) = Some n \<Longrightarrow> riveBufferId (heap w b') = Some n \<Longrightarrow> b = b'"
  unfolding tagsOk_def by blast

lemma getCacheKey_key:
  assumes "tagsOk w" "getCacheKey p w = (k, w1)"
  shows "(\<exists>s. k = ''src:'' @ s) \<or> k = ''unknown'' \<or>
         (\<exists>b n. buffer p = Some b \<and> truthyString (src p) = None \<and>
                riveBufferId (heap w1 b) = Some n \<and> k = ''buffer:'' @ decimal n)"
  using assms
  by (auto simp: getCacheKey_def truthyNumber_def Let_def split: option.splits if_splits)

lemma getCacheKey_tagsOk:
  assumes "tagsOk w" "getCacheKey p w = (k, w1)"
  shows "tagsOk w1"
proof -
  from getCacheKey_cases [OF assms(2)] show ?thesis
  proof
    assume "w1 = w" with assms show ?thesis by simp
  next
    assume "\<exists>b. buffer p = Some b \<and> truthyString (src p) = None
            \<and> truthyNumber (riveBufferId (heap w b)) = None
            \<and> k = ''buffer:'' @ decimal (bufferIdCounter w + 1)
            \<and> w1 = w\<lparr> bufferIdCounter := bufferIdCounter w + 1,
                      heap := (heap w)(b := (heap w b)\<lparr> riveBufferId := Some (bufferIdCounter w + 1) \<rparr>) \<rparr>"
    then obtain b where b: "truthyNumber (riveBufferId (heap w b)) = None"
      and w1: "w1 = w\<lparr> bufferIdCounter := bufferIdCounter w + 1,
                      heap := (heap w)(b := (heap w b)\<lparr> riveBufferId := Some (bufferIdCounter w + 1) \<rparr>) \<rparr>"
      by blast
    note A = tagsOk_bound [OF assms(1)] and B = tagsOk_inj [OF assms(1)]
    show "tagsOk w1" unfolding w1 tagsOk_def
      by (auto split: if_splits dest: A B)
  qed
qed

lemma getCacheKey_keyBound:
  assumes "tagsOk w" "getCacheKey p w = (k, w1)"
  shows "keyBound k w1"
  using getCacheKey_key [OF assms] tagsOk_bound [OF getCacheKey_tagsOk [OF assms]]
  by (auto simp: keyBound_def dest!: decimal_inj)

lemma getCacheKey_counter_mono:
  assumes "getCacheKey p w = (k, w1)"
  shows "bufferIdCounter w \<le> bufferIdCounter w1"
  using getCacheKey_cases [OF assms] by auto

lemma keyBound_mono: "keyBound k w \<Longrightarrow> bufferIdCounter w \<le> bufferIdCounter w1 \<Longrightarrow> keyBound k w1"
  by (auto simp: keyBound_def)

lemma getCacheKey_inv:
  assumes "worldInv w" "getCacheKey p w = (k, w1)"
  shows "worldInv w1"
proof -
  note fr = getCacheKey_frame [OF assms(2)]
  note mono = getCacheKey_counter_mono [OF assms(2)]
  from assms(1) have "tagsOk w1" by (simp add: worldInv_def getCacheKey_tagsOk [OF _ assms(2)])
  moreover have "keysOk w1" using assms(1) mono unfolding worldInv_def keysOk_def fr
    by (blast intro: keyBound_mono)
  moreover have "disjointTables w1" "listenersOk w1" "entriesOk w1" "traceOk w1" "promisesOk w1"
    using assms(1) unfolding worldInv_def inv_defs readSignal_def fr by simp_all
  ultimately show ?thesis by (simp add: worldInv_def)
qed

lemma inv_parts:
  assumes "worldInv w"
  shows "disjointTables w" "tagsOk w" "keysOk w" "listenersOk w" "entriesOk w" "traceOk w" "promisesOk w"
  using assms by (simp_all add: worldInv_def)

lemma disjointD: "disjointTables w \<Longrightarrow> map_of (cache w) k = Some e \<Longrightarrow> map_of (pendingLoads w) k = None"
  unfolding disjointTables_def by (metis option.distinct(1))

lemma keysOk_cache: "keysOk w \<Longrightarrow> map_of (cache w) k = Some e \<Longrightarrow> keyBound k w"
  and keysOk_pending: "keysOk w \<Longrightarrow> map_of (pendingLoads w) k = Some pl \<Longrightarrow> keyBound k w"
  and keysOk_listeners: "keysOk w \<Longrightarrow> map_of (listeners w) fe = Some c \<Longrightarrow> keyBound (cl_cacheKey c) w"
  unfolding keysOk_def by blast+

lemma listenersOkD:
  assumes "listenersOk w" "map_of (listeners w) (f, ev) = Some c"
  shows "cl_file c = f" "f < handles w" "cl_stateSignal c < length (signals w)"
    "cl_resolve c < length (promises w)"
    "map_of (listeners w) (f', ev') = Some c' \<Longrightarrow> cl_stateSignal c' = cl_stateSignal c \<Longrightarrow> f' = f"
  using assms unfolding listenersOk_def by blast+

lemma entriesOkD:
  assumes "entriesOk w" "map_of (cache w) k = Some e"
  shows "\<exists>c. map_of (listeners w) (entryFile e, Load) = Some c \<and> cl_cacheKey c = k \<and>
              state e = ReadonlySignal (cl_stateSignal c)"
    "Notify (entryFile e) Load \<in> set (trace w)"
    "readSignal (state e) w = Some \<lparr> riveFile = Some (entryFile e), status = Success \<rparr>"
  using assms unfolding entriesOk_def by blast+

lemma entriesOk_distinct: "entriesOk w \<Longrightarrow> distinct (map fst (cache w))"
  by (simp add: entriesOk_def)

lemma traceOkD:
  assumes "traceOk w"
  shows "Cleanup f t \<in> set (trace w) \<Longrightarrow> Notify f Load \<in> set (trace w)"
    "Notify f Load \<in> set (trace w) \<Longrightarrow> Notify f LoadError \<notin> set (trace w)"
    "Notify f ev \<in> set (trace w) \<Longrightarrow> map_of (listeners w) (f, ev) \<noteq> None"
    "Init f True \<in> set (trace w) \<Longrightarrow> f < handles w"
    "Init f True \<in> set (trace w) \<Longrightarrow> map_of (listeners w) (f, ev) = None"
  using assms unfolding traceOk_def by blast+

lemma entriesOkI:
  assumes "distinct (map fst (cache w))"
    and "\<And>k e. map_of (cache w) k = Some e \<Longrightarrow>
         (\<exists>c. map_of (listeners w) (entryFile e, Load) = Some c \<and> cl_cacheKey c = k \<and>
              state e = ReadonlySignal (cl_stateSignal c)) \<and>
         Notify (entryFile e) Load \<in> set (trace w) \<and>
         readSignal (state e) w = Some \<lparr> riveFile = Some (entryFile e), status = Success \<rparr>"
  shows "entriesOk w"
  using assms unfolding entriesOk_def by blast

lemma entriesOkD_all:
  assumes "entriesOk w" "map_of (cache w) k = Some e"
  shows "(\<exists>c. map_of (listeners w) (entryFile e, Load) = Some c \<and> cl_cacheKey c = k \<and>
              state e = ReadonlySignal (cl_stateSignal c)) \<and>
         Notify (entryFile e) Load \<in> set (trace w) \<and>
         readSignal (state e) w = Some \<lparr> riveFile = Some (entryFile e), status = Success \<rparr>"
  using assms unfolding entriesOk_def by blast

lemma readSignal_cong: "signals w' = signals w \<Longrightarrow> readSignal s w' = readSignal s w"
  by (simp add: readSignal_def)

lemma inv_refCount:
  assumes "worldInv w" "map_of (cache w) k = Some e"
  shows "worldInv (w\<lparr> cache := AList.update k (e\<lparr> refCount := r \<rparr>) (cache w) \<rparr>)"
proof -
  let ?w = "w\<lparr> cache := AList.update k (e\<lparr> refCount := r \<rparr>) (cache w) \<rparr>"
  note p = inv_parts [OF assms(1)]
  have "disjointTables ?w" using disjointD [OF p(1)] assms(2) p(1)
    by (auto simp: disjointTables_def update_conv')
  moreover have "tagsOk ?w" using p(2) unfolding tagsOk_def by simp
  moreover have "keysOk ?w" using p(3) keysOk_cache [OF p(3) assms(2)]
    by (auto simp: keysOk_def keyBound_def update_conv' split: if_splits)
  moreover have "listenersOk ?w" using p(4) unfolding listenersOk_def by simp
  moreover have "entriesOk ?w"
  proof (rule entriesOkI)
    show "distinct (map fst (cache ?w))" using entriesOk_distinct [OF p(5)] by (simp add: distinct_update)
  next
    fix k' e' assume "map_of (cache ?w) k' = Some e'"
    then have "(k' = k \<and> e' = e\<lparr> refCount := r \<rparr>) \<or> map_of (cache w) k' = Some e'"
      by (auto simp: update_conv' split: if_splits)
    then show "(\<exists>c. map_of (listeners ?w) (entryFile e', Load) = Some c \<and> cl_cacheKey c = k' \<and>
              state e' = ReadonlySignal (cl_stateSignal c)) \<and>
         Notify (entryFile e') Load \<in> set (trace ?w) \<and>
         readSignal (state e') ?w = Some \<lparr> riveFile = Some (entryFile e'), status = Success \<rparr>"
      using entriesOkD_all [OF p(5) assms(2)] entriesOkD_all [OF p(5), of k' e']
      by (auto simp: readSignal_cong [of ?w w])
  qed
  moreover have "traceOk ?w" using p(6) unfolding traceOk_def by simp
  moreover have "promisesOk ?w" using p(7) unfolding promisesOk_def by simp
  ultimately show ?thesis by (simp add: worldInv_def)
qed

lemma inv_drop:
  assumes "worldInv w" "map_of (cache w) k = Some e" "set xs \<subseteq> {Cleanup (entryFile e) t, ConsoleWarn}"
  shows "worldInv (w\<lparr> cache := AList.delete k (cache w), trace := trace w @ xs \<rparr>)"
proof -
  let ?w = "w\<lparr> cache := AList.delete k (cache w), trace := trace w @ xs \<rparr>"
  note p = inv_parts [OF assms(1)]
  have "disjointTables ?w" using p(1)
    by (auto simp: disjointTables_def delete_conv')
  moreover have "tagsOk ?w" using p(2) unfolding tagsOk_def by simp
  moreover have "keysOk ?w" using p(3)
    by (auto simp: keysOk_def keyBound_def delete_conv' split: if_splits)
  moreover have "listenersOk ?w" using p(4) unfolding listenersOk_def by simp
  moreover have "entriesOk ?w"
  proof (rule entriesOkI)
    show "distinct (map fst (cache ?w))" using entriesOk_distinct [OF p(5)] by (simp add: distinct_delete)
  next
    fix k' e' assume "map_of (cache ?w) k' = Some e'"
    then have "map_of (cache w) k' = Some e'"
      by (auto simp: delete_conv' split: if_splits)
    then show "(\<exists>c. map_of (listeners ?w) (entryFile e', Load) = Some c \<and> cl_cacheKey c = k' \<and>
              state e' = ReadonlySignal (cl_stateSignal c)) \<and>
         Notify (entryFile e') Load \<in> set (trace ?w) \<and>
         readSignal (state e') ?w = Some \<lparr> riveFile = Some (entryFile e'), status = Success \<rparr>"
      using entriesOkD_all [OF p(5), of k' e']
      by (auto simp: readSignal_cong [of ?w w])
  qed
  moreover have "traceOk ?w"
  proof -
    have x: "x \<in> set xs \<Longrightarrow> x = Cleanup (entryFile e) t \<or> x = ConsoleWarn" for x
      using assms(3) by auto
    show ?thesis unfolding traceOk_def
      using traceOkD [OF p(6)] entriesOkD(2) [OF p(5) assms(2)] by (auto dest!: x)
  qed
  moreover have "promisesOk ?w" using p(7) unfolding promisesOk_def by simp
  ultimately show ?thesis by (simp add: worldInv_def)
qed

lemma cleanupEffects_set:
  "x \<in> set (cleanupEffects es t) \<Longrightarrow> x = ConsoleWarn \<or> (\<exists>ke \<in> set es. x = Cleanup (entryFile (snd ke)) (t (entryFile (snd ke))))"
  by (induction es) (auto split: if_splits)

lemma inv_clear:
  assumes "worldInv w"
  shows "worldInv (w\<lparr> cache := [], trace := trace w @ cleanupEffects (cache w) t \<rparr>)"
proof -
  let ?w = "w\<lparr> cache := [], trace := trace w @ cleanupEffects (cache w) t \<rparr>"
  note p = inv_parts [OF assms(1)]
  have "disjointTables ?w" using p(1) unfolding disjointTables_def by simp
  moreover have "tagsOk ?w" using p(2) unfolding tagsOk_def by simp
  moreover have "keysOk ?w" using p(3) unfolding keysOk_def keyBound_def by simp
  moreover have "listenersOk ?w" using p(4) unfolding listenersOk_def by simp
  moreover have "entriesOk ?w" unfolding entriesOk_def by simp
  moreover have "traceOk ?w"
  proof -
    have c: "Notify f Load \<in> set (trace w)" if "Cleanup f b \<in> set (cleanupEffects (cache w) t)" for f b
    proof -
      from cleanupEffects_set [OF that] obtain k e where "(k, e) \<in> set (cache w)" "f = entryFile e"
        by auto
      with entriesOk_distinct [OF p(5)] have "map_of (cache w) k = Some e" "f = entryFile e" by simp_all
      with entriesOkD(2) [OF p(5)] show ?thesis by simp
    qed
    have n: "Notify f ev \<notin> set (cleanupEffects (cache w) t)" "Init f b \<notin> set (cleanupEffects (cache w) t)" for f ev b
      by (auto dest: cleanupEffects_set)
    show ?thesis unfolding traceOk_def
      using traceOkD [OF p(6)] by (auto simp: n dest: c)
  qed
  moreover have "promisesOk ?w" using p(7) unfolding promisesOk_def by simp
  ultimately show ?thesis by (simp add: worldInv_def)
qed

lemma listenersOkI:
  assumes "\<And>f ev c. map_of (listeners w) (f, ev) = Some c \<Longrightarrow>
        cl_file c = f \<and> f < handles w \<and> cl_stateSignal c < length (signals w) \<and>
        cl_resolve c < length (promises w) \<and>
        (\<forall>f' ev' c'. map_of (listeners w) (f', ev') = Some c' \<and> cl_stateSignal c' = cl_stateSignal c
            \<longrightarrow> f' = f)"
  shows "listenersOk w"
  using assms unfolding listenersOk_def by blast

lemma listenersOk_frame:
  assumes "listenersOk w" "listeners w' = listeners w" "handles w \<le> handles w'"
    "length (signals w) \<le> length (signals w')" "length (promises w) \<le> length (promises w')"
  shows "listenersOk w'"
proof (rule listenersOkI)
  fix f ev c assume "map_of (listeners w') (f, ev) = Some c"
  then have c: "map_of (listeners w) (f, ev) = Some c" by (simp add: assms(2))
  show "cl_file c = f \<and> f < handles w' \<and> cl_stateSignal c < length (signals w') \<and>
        cl_resolve c < length (promises w') \<and>
        (\<forall>f' ev' c'. map_of (listeners w') (f', ev') = Some c' \<and> cl_stateSignal c' = cl_stateSignal c
            \<longrightarrow> f' = f)"
    using listenersOkD [OF assms(1) c] assms(2-5) by auto
qed

lemma keysOk_frame:
  assumes "keysOk w" "bufferIdCounter w' = bufferIdCounter w"
    "\<And>k e. map_of (cache w') k = Some e \<Longrightarrow> keyBound k w"
    "\<And>k pl. map_of (pendingLoads w') k = Some pl \<Longrightarrow> keyBound k w"
    "\<And>fe c. map_of (listeners w') fe = Some c \<Longrightarrow> keyBound (cl_cacheKey c) w"
  shows "keysOk w'"
  using assms unfolding keysOk_def keyBound_def by metis

lemma tagsOk_frame:
  "tagsOk w \<Longrightarrow> heap w' = heap w \<Longrightarrow> bufferIdCounter w' = bufferIdCounter w \<Longrightarrow> tagsOk w'"
  by (simp add: tagsOk_def)

lemma entriesOk_frame:
  assumes "entriesOk w" "cache w' = cache w"
    "\<And>fe c. map_of (listeners w) fe = Some c \<Longrightarrow> map_of (listeners w') fe = Some c"
    "set (trace w) \<subseteq> set (trace w')"
    "\<And>k e. map_of (cache w) k = Some e \<Longrightarrow> readSignal (state e) w' = readSignal (state e) w"
  shows "entriesOk w'"
proof (rule entriesOkI)
  show "distinct (map fst (cache w'))" using entriesOk_distinct [OF assms(1)] assms(2) by simp
next
  fix k e assume "map_of (cache w') k = Some e"
  then have e: "map_of (cache w) k = Some e" by (simp add: assms(2))
  from entriesOkD_all [OF assms(1) e] assms(3) assms(4) assms(5) [OF e]
  show "(\<exists>c. map_of (listeners w') (entryFile e, Load) = Some c \<and> cl_cacheKey c = k \<and>
              state e = ReadonlySignal (cl_stateSignal c)) \<and>
         Notify (entryFile e) Load \<in> set (trace w') \<and>
         readSignal (state e) w' = Some \<lparr> riveFile = Some (entryFile e), status = Success \<rparr>"
    by auto
qed

lemma readSignal_append:
  "readSignal s w = Some v \<Longrightarrow> signals w' = signals w @ xs \<Longrightarrow> readSignal s w' = Some v"
  by (auto simp: readSignal_def nth_append split: if_splits)

lemma entry_signal_bound:
  assumes "entriesOk w" "map_of (cache w) k = Some e"
  shows "node (state e) < length (signals w)"
  using entriesOkD(3) [OF assms] by (auto simp: readSignal_def split: if_splits)

lemma entry_file_bound:
  assumes "entriesOk w" "listenersOk w" "map_of (cache w) k = Some e"
  shows "entryFile e < handles w"
  using entriesOkD(1) [OF assms(1,3)] listenersOkD(2) [OF assms(2)] by blast

lemma readSignal_append':
  "readSignal s w = Some v \<Longrightarrow> signals w' = signals w @ xs \<Longrightarrow> readSignal s w' = readSignal s w"
  by (auto simp: readSignal_def nth_append split: if_splits)

lemma traceOkI:
  assumes "\<And>f t. Cleanup f t \<in> set (trace w) \<Longrightarrow> Notify f Load \<in> set (trace w)"
    "\<And>f. Notify f Load \<in> set (trace w) \<Longrightarrow> Notify f LoadError \<notin> set (trace w)"
    "\<And>f ev. Notify f ev \<in> set (trace w) \<Longrightarrow> map_of (listeners w) (f, ev) \<noteq> None"
    "\<And>f. Init f True \<in> set (trace w) \<Longrightarrow> f < handles w"
    "\<And>f ev. Init f True \<in> set (trace w) \<Longrightarrow> map_of (listeners w) (f, ev) = None"
  shows "traceOk w"
  using assms unfolding traceOk_def by blast

lemma listeners_fresh:
  assumes "listenersOk w" "handles w \<le> f"
  shows "map_of (listeners w) (f, ev) = None"
proof (cases "map_of (listeners w) (f, ev)")
  case None
  then show ?thesis .
next
  case (Some c)
  from listenersOkD(2) [OF assms(1) Some] assms(2) show ?thesis by simp
qed

lemma inv_miss_fail:
  assumes "worldInv w" "keyBound k w" "map_of (cache w) k = None"
    and w': "w' = w\<lparr> pendingLoads := AList.update k pl (pendingLoads w),
                   signals := signals w @ [v], promises := promises w @ [Resolved],
                   handles := h', trace := trace w @ xs \<rparr>"
    and h': "handles w \<le> h'"
    and xs: "\<And>x. x \<in> set xs \<Longrightarrow> (\<exists>r. x = Construct p r) \<or> x = ConsoleError \<or> (x = Init (handles w) True \<and> handles w < h')"
  shows "worldInv w'"
proof -
  note p = inv_parts [OF assms(1)]
  have "disjointTables w'" using p(1) assms(3)
    by (auto simp: disjointTables_def w' update_conv')
  moreover have "tagsOk w'" using p(2) by (rule tagsOk_frame) (simp_all add: w')
  moreover have "keysOk w'" using p(3)
  proof (rule keysOk_frame)
    show "bufferIdCounter w' = bufferIdCounter w" by (simp add: w')
  qed (auto simp: w' update_conv' assms(2) split: if_splits
        dest: keysOk_cache [OF p(3)] keysOk_pending [OF p(3)] keysOk_listeners [OF p(3)])
  moreover have "listenersOk w'" using p(4) by (rule listenersOk_frame) (simp_all add: w' h')
  moreover have "entriesOk w'" using p(5)
  proof (rule entriesOk_frame)
    fix k e assume "map_of (cache w) k = Some e"
    from entriesOkD(3) [OF p(5) this]
    show "readSignal (state e) w' = readSignal (state e) w"
      by (rule readSignal_append') (simp add: w')
  qed (auto simp: w')
  moreover have "traceOk w'"
  proof -
    have t: "trace w' = trace w @ xs" and h: "handles w' = h'" and l: "listeners w' = listeners w"
      by (simp_all add: w')
    have new: "map_of (listeners w) (handles w, ev) = None" for ev
      by (rule listeners_fresh [OF p(4)]) simp
    show ?thesis
    proof (rule traceOkI)
      fix f t' assume "Cleanup f t' \<in> set (trace w')"
      then show "Notify f Load \<in> set (trace w')"
        using traceOkD(1) [OF p(6), of f t'] by (auto simp: t dest!: xs)
    next
      fix f assume "Notify f Load \<in> set (trace w')"
      then show "Notify f LoadError \<notin> set (trace w')"
        using traceOkD(2) [OF p(6), of f] by (auto simp: t dest!: xs)
    next
      fix f ev assume "Notify f ev \<in> set (trace w')"
      then show "map_of (listeners w') (f, ev) \<noteq> None"
        using traceOkD(3) [OF p(6), of f ev] by (auto simp: t l dest!: xs)
    next
      fix f assume "Init f True \<in> set (trace w')"
      then show "f < handles w'"
        using traceOkD(4) [OF p(6), of f] h' by (auto simp: t h dest!: xs)
    next
      fix f ev assume "Init f True \<in> set (trace w')"
      then show "map_of (listeners w') (f, ev) = None"
        using traceOkD(5) [OF p(6), of f ev] new by (auto simp: t l dest!: xs)
    qed
  qed
  moreover have "promisesOk w'" using p(7) unfolding promisesOk_def by (simp add: w')
  ultimately show ?thesis by (simp add: worldInv_def)
qed

lemma inv_miss_Starts:
  assumes "worldInv w" "keyBound k w" "map_of (cache w) k = None"
    and c: "c = \<lparr> cl_file = handles w, cl_stateSignal = length (signals w), cl_cacheKey = k,
                  cl_resolve = length (promises w) \<rparr>"
    and w': "w' = w\<lparr> pendingLoads := AList.update k pl (pendingLoads w),
                   signals := signals w @ [v], promises := promises w @ [Pending],
                   handles := handles w + 1,
                   listeners := AList.update (handles w, LoadError) c
                                  (AList.update (handles w, Load) c (listeners w)),
                   trace := trace w @ [Construct p (Some (handles w)), Init (handles w) False,
                              On (handles w) Load, On (handles w) LoadError] \<rparr>"
  shows "worldInv w'"
proof -
  note p = inv_parts [OF assms(1)]
  have new: "map_of (listeners w) (handles w, ev) = None" for ev
    by (rule listeners_fresh [OF p(4)]) simp
  have L: "map_of (listeners w') (f, ev) = (if f = handles w then Some c else map_of (listeners w) (f, ev))" for f ev
    by (cases ev) (auto simp: w' update_conv')
  have sz: "handles w' = handles w + 1" "length (signals w') = length (signals w) + 1"
    "length (promises w') = length (promises w) + 1" by (simp_all add: w')
  have "disjointTables w'" using p(1) assms(3)
    by (auto simp: disjointTables_def w' update_conv')
  moreover have "tagsOk w'" using p(2) by (rule tagsOk_frame) (simp_all add: w')
  moreover have "keysOk w'" using p(3)
  proof (rule keysOk_frame)
    show "bufferIdCounter w' = bufferIdCounter w" by (simp add: w')
  next
    fix fe c' assume "map_of (listeners w') fe = Some c'"
    then show "keyBound (cl_cacheKey c') w"
      using assms(2) keysOk_listeners [OF p(3), of fe c']
      by (cases fe) (auto simp: L c split: if_splits)
  qed (auto simp: w' update_conv' assms(2) split: if_splits
        dest: keysOk_cache [OF p(3)] keysOk_pending [OF p(3)])
  moreover have "listenersOk w'"
  proof (rule listenersOkI)
    fix f ev c' assume a: "map_of (listeners w') (f, ev) = Some c'"
    show "cl_file c' = f \<and> f < handles w' \<and> cl_stateSignal c' < length (signals w') \<and>
        cl_resolve c' < length (promises w') \<and>
        (\<forall>f' ev' c''. map_of (listeners w') (f', ev') = Some c'' \<and> cl_stateSignal c'' = cl_stateSignal c'
            \<longrightarrow> f' = f)"
    proof (cases "f = handles w")
      case True
      with a have "c' = c" by (simp add: L)
      then show ?thesis using True
        by (auto simp: L c sz split: if_splits dest: listenersOkD(3) [OF p(4)])
    next
      case False
      with a have old: "map_of (listeners w) (f, ev) = Some c'" by (simp add: L)
      show ?thesis using False listenersOkD(1-4) [OF p(4) old]
        by (auto simp: L c sz split: if_splits dest: listenersOkD(5) [OF p(4) old])
    qed
  qed
  moreover have "entriesOk w'" using p(5)
  proof (rule entriesOk_frame)
    fix k e assume "map_of (cache w) k = Some e"
    from entriesOkD(3) [OF p(5) this]
    show "readSignal (state e) w' = readSignal (state e) w"
      by (rule readSignal_append') (simp add: w')
  next
    fix fe c' assume "map_of (listeners w) fe = Some c'"
    then show "map_of (listeners w') fe = Some c'"
      using new by (cases fe) (auto simp: L)
  qed (auto simp: w')
  moreover have "traceOk w'"
  proof -
    have t: "trace w' = trace w @ [Construct p (Some (handles w)), Init (handles w) False,
                              On (handles w) Load, On (handles w) LoadError]"
      and h: "handles w' = handles w + 1" by (simp_all add: w')
    show ?thesis
    proof (rule traceOkI)
      fix f t' assume "Cleanup f t' \<in> set (trace w')"
      then show "Notify f Load \<in> set (trace w')"
        using traceOkD(1) [OF p(6), of f t'] by (auto simp: t)
    next
      fix f assume "Notify f Load \<in> set (trace w')"
      then show "Notify f LoadError \<notin> set (trace w')"
        using traceOkD(2) [OF p(6), of f] by (auto simp: t)
    next
      fix f ev assume "Notify f ev \<in> set (trace w')"
      then show "map_of (listeners w') (f, ev) \<noteq> None"
        using traceOkD(3) [OF p(6), of f ev] by (auto simp: t L)
    next
      fix f assume "Init f True \<in> set (trace w')"
      then show "f < handles w'"
        using traceOkD(4) [OF p(6), of f] by (auto simp: t h)
    next
      fix f ev assume "Init f True \<in> set (trace w')"
      then show "map_of (listeners w') (f, ev) = None"
        using traceOkD(4) [OF p(6), of f] traceOkD(5) [OF p(6), of f ev] by (auto simp: t L)
    qed
  qed
  moreover have "promisesOk w'" using p(7) unfolding promisesOk_def by (simp add: w')
  ultimately show ?thesis by (simp add: worldInv_def)
qed

lemma old_entry_signal:
  assumes "entriesOk w" "listenersOk w" "map_of (listeners w) (f, ev) = Some c" "\<not> notified f w"
    and "map_of (cache w) k = Some e"
  shows "node (state e) \<noteq> cl_stateSignal c"
proof
  assume eq: "node (state e) = cl_stateSignal c"
  from entriesOkD(1) [OF assms(1,5)] obtain c' where
    c': "map_of (listeners w) (entryFile e, Load) = Some c'" "state e = ReadonlySignal (cl_stateSignal c')"
    by blast
  from eq c'(2) have "cl_stateSignal c' = cl_stateSignal c" by simp
  from listenersOkD(5) [OF assms(2,3) c'(1) this] have "entryFile e = f" .
  with entriesOkD(2) [OF assms(1,5)] assms(4) show False by (simp add: notified_def)
qed

lemma readSignal_update_other:
  "node s \<noteq> n \<Longrightarrow> signals w' = (signals w)[n := v] \<Longrightarrow> readSignal s w' = readSignal s w"
  by (simp add: readSignal_def)

lemma inv_settle:
  assumes "worldInv w"
  shows "worldInv (settle q Resolved w)"
proof -
  let ?w = "settle q Resolved w"
  note p = inv_parts [OF assms(1)]
  have "disjointTables ?w" using p(1) by (simp add: disjointTables_def)
  moreover have "tagsOk ?w" using p(2) by (rule tagsOk_frame) simp_all
  moreover have "keysOk ?w" using p(3) by (simp add: keysOk_def keyBound_def)
  moreover have "listenersOk ?w" using p(4) by (rule listenersOk_frame) simp_all
  moreover have "entriesOk ?w" using p(5)
    by (rule entriesOk_frame) (simp_all add: readSignal_def)
  moreover have "traceOk ?w" using p(6) by (simp add: traceOk_def)
  moreover have "promisesOk ?w" using p(7) set_update_subset_insert [of "promises w" q Resolved]
    by (auto simp: promisesOk_def settle_def)
  ultimately show ?thesis by (simp add: worldInv_def)
qed

lemma inv_notify_throws:
  assumes "worldInv w" "map_of (listeners w) (f, Load) = Some c" "\<not> notified f w"
    and w': "w' = w\<lparr> trace := trace w @ [Notify f Load, GetInstance g True] \<rparr>"
  shows "worldInv w'"
proof -
  note p = inv_parts [OF assms(1)]
  have "disjointTables w'" using p(1) by (simp add: disjointTables_def w')
  moreover have "tagsOk w'" using p(2) by (rule tagsOk_frame) (simp_all add: w')
  moreover have "keysOk w'" using p(3) by (simp add: keysOk_def keyBound_def w')
  moreover have "listenersOk w'" using p(4) by (rule listenersOk_frame) (simp_all add: w')
  moreover have "entriesOk w'" using p(5)
    by (rule entriesOk_frame) (auto simp: w' readSignal_def)
  moreover have "traceOk w'"
  proof -
    have t: "trace w' = trace w @ [Notify f Load, GetInstance g True]"
      and h: "handles w' = handles w" and l: "listeners w' = listeners w"
      by (simp_all add: w')
    from assms(3) have nn: "Notify f Load \<notin> set (trace w)" "Notify f LoadError \<notin> set (trace w)"
      by (simp_all add: notified_def)
    show ?thesis
    proof (rule traceOkI)
      fix f' t' assume "Cleanup f' t' \<in> set (trace w')"
      then show "Notify f' Load \<in> set (trace w')"
        using traceOkD(1) [OF p(6), of f' t'] by (auto simp: t)
    next
      fix f' assume "Notify f' Load \<in> set (trace w')"
      then show "Notify f' LoadError \<notin> set (trace w')"
        using traceOkD(2) [OF p(6), of f'] nn by (auto simp: t)
    next
      fix f' ev assume "Notify f' ev \<in> set (trace w')"
      then show "map_of (listeners w') (f', ev) \<noteq> None"
        using traceOkD(3) [OF p(6), of f' ev] assms(2) by (auto simp: t l)
    next
      fix f' assume "Init f' True \<in> set (trace w')"
      then show "f' < handles w'"
        using traceOkD(4) [OF p(6), of f'] by (auto simp: t h)
    next
      fix f' ev assume "Init f' True \<in> set (trace w')"
      then show "map_of (listeners w') (f', ev) = None"
        using traceOkD(5) [OF p(6), of f' ev] by (auto simp: t l)
    qed
  qed
  moreover have "promisesOk w'" using p(7) by (simp add: promisesOk_def w')
  ultimately show ?thesis by (simp add: worldInv_def)
qed

lemma inv_notify_LoadError:
  assumes "worldInv w" "map_of (listeners w) (f, LoadError) = Some c" "\<not> notified f w"
    and w': "w' = w\<lparr> pendingLoads := AList.delete (cl_cacheKey c) (pendingLoads w),
                   signals := (signals w)[cl_stateSignal c := v],
                   trace := trace w @ [Notify f LoadError] \<rparr>"
  shows "worldInv w'"
proof -
  note p = inv_parts [OF assms(1)]
  have "disjointTables w'" using p(1) by (auto simp: disjointTables_def w' delete_conv')
  moreover have "tagsOk w'" using p(2) by (rule tagsOk_frame) (simp_all add: w')
  moreover have "keysOk w'" using p(3)
  proof (rule keysOk_frame)
    show "bufferIdCounter w' = bufferIdCounter w" by (simp add: w')
  qed (auto simp: w' delete_conv' split: if_splits
        dest: keysOk_cache [OF p(3)] keysOk_pending [OF p(3)] keysOk_listeners [OF p(3)])
  moreover have "listenersOk w'" using p(4) by (rule listenersOk_frame) (simp_all add: w')
  moreover have "entriesOk w'" using p(5)
  proof (rule entriesOk_frame)
    fix k e assume "map_of (cache w) k = Some e"
    from old_entry_signal [OF p(5) p(4) assms(2,3) this]
    show "readSignal (state e) w' = readSignal (state e) w"
      by (rule readSignal_update_other) (simp add: w')
  qed (auto simp: w')
  moreover have "traceOk w'"
  proof -
    have t: "trace w' = trace w @ [Notify f LoadError]"
      and h: "handles w' = handles w" and l: "listeners w' = listeners w"
      by (simp_all add: w')
    from assms(3) have nn: "Notify f Load \<notin> set (trace w)" "Notify f LoadError \<notin> set (trace w)"
      by (simp_all add: notified_def)
    show ?thesis
    proof (rule traceOkI)
      fix f' t' assume "Cleanup f' t' \<in> set (trace w')"
      then show "Notify f' Load \<in> set (trace w')"
        using traceOkD(1) [OF p(6), of f' t'] by (auto simp: t)
    next
      fix f' assume "Notify f' Load \<in> set (trace w')"
      then show "Notify f' LoadError \<notin> set (trace w')"
        using traceOkD(2) [OF p(6), of f'] nn by (auto simp: t)
    next
      fix f' ev assume "Notify f' ev \<in> set (trace w')"
      then show "map_of (listeners w') (f', ev) \<noteq> None"
        using traceOkD(3) [OF p(6), of f' ev] assms(2) by (auto simp: t l)
    next
      fix f' assume "Init f' True \<in> set (trace w')"
      then show "f' < handles w'"
        using traceOkD(4) [OF p(6), of f'] by (auto simp: t h)
    next
      fix f' ev assume "Init f' True \<in> set (trace w')"
      then show "map_of (listeners w') (f', ev) = None"
        using traceOkD(5) [OF p(6), of f' ev] by (auto simp: t l)
    qed
  qed
  moreover have "promisesOk w'" using p(7) by (simp add: promisesOk_def w')
  ultimately show ?thesis by (simp add: worldInv_def)
qed

lemma inv_notify_Load:
  assumes "worldInv w" "map_of (listeners w) (f, Load) = Some c" "\<not> notified f w"
    and w': "w' = w\<lparr> cache := AList.update (cl_cacheKey c)
                      \<lparr> entryFile = cl_file c, state = ReadonlySignal (cl_stateSignal c), refCount = 1 \<rparr>
                      (cache w),
           pendingLoads := AList.delete (cl_cacheKey c) (pendingLoads w),
           signals := (signals w)[cl_stateSignal c := \<lparr> riveFile = Some (cl_file c), status = Success \<rparr>],
           trace := trace w @ [Notify f Load, GetInstance (cl_file c) False] \<rparr>"
  shows "worldInv w'"
proof -
  note p = inv_parts [OF assms(1)]
  note c = listenersOkD(1-4) [OF p(4) assms(2)]
  have "disjointTables w'" using p(1) by (auto simp: disjointTables_def w' delete_conv' update_conv')
  moreover have "tagsOk w'" using p(2) by (rule tagsOk_frame) (simp_all add: w')
  moreover have "keysOk w'" using p(3)
  proof (rule keysOk_frame)
    show "bufferIdCounter w' = bufferIdCounter w" by (simp add: w')
  qed (auto simp: w' delete_conv' update_conv' keysOk_listeners [OF p(3) assms(2)] split: if_splits
        dest: keysOk_cache [OF p(3)] keysOk_pending [OF p(3)] keysOk_listeners [OF p(3)])
  moreover have "listenersOk w'" using p(4) by (rule listenersOk_frame) (simp_all add: w')
  moreover have "entriesOk w'"
  proof (rule entriesOkI)
    show "distinct (map fst (cache w'))" using entriesOk_distinct [OF p(5)]
      by (simp add: w' distinct_update)
  next
    fix k e assume "map_of (cache w') k = Some e"
    then have "(k = cl_cacheKey c \<and> e = \<lparr> entryFile = cl_file c, state = ReadonlySignal (cl_stateSignal c), refCount = 1 \<rparr>)
        \<or> map_of (cache w) k = Some e"
      by (auto simp: w' update_conv' split: if_splits)
    then show "(\<exists>c. map_of (listeners w') (entryFile e, Load) = Some c \<and> cl_cacheKey c = k \<and>
              state e = ReadonlySignal (cl_stateSignal c)) \<and>
         Notify (entryFile e) Load \<in> set (trace w') \<and>
         readSignal (state e) w' = Some \<lparr> riveFile = Some (entryFile e), status = Success \<rparr>"
    proof
      assume "k = cl_cacheKey c \<and> e = \<lparr> entryFile = cl_file c, state = ReadonlySignal (cl_stateSignal c), refCount = 1 \<rparr>"
      then show ?thesis using c assms(2) by (simp add: w' readSignal_def)
    next
      assume old: "map_of (cache w) k = Some e"
      from old_entry_signal [OF p(5) p(4) assms(2,3) old]
      have "readSignal (state e) w' = readSignal (state e) w"
        by (rule readSignal_update_other) (simp add: w')
      with entriesOkD_all [OF p(5) old] show ?thesis by (auto simp: w')
    qed
  qed
  moreover have "traceOk w'"
  proof -
    have t: "trace w' = trace w @ [Notify f Load, GetInstance (cl_file c) False]"
      and h: "handles w' = handles w" and l: "listeners w' = listeners w"
      by (simp_all add: w')
    from assms(3) have nn: "Notify f Load \<notin> set (trace w)" "Notify f LoadError \<notin> set (trace w)"
      by (simp_all add: notified_def)
    show ?thesis
    proof (rule traceOkI)
      fix f' t' assume "Cleanup f' t' \<in> set (trace w')"
      then show "Notify f' Load \<in> set (trace w')"
        using traceOkD(1) [OF p(6), of f' t'] by (auto simp: t)
    next
      fix f' assume "Notify f' Load \<in> set (trace w')"
      then show "Notify f' LoadError \<notin> set (trace w')"
        using traceOkD(2) [OF p(6), of f'] nn by (auto simp: t)
    next
      fix f' ev assume "Notify f' ev \<in> set (trace w')"
      then show "map_of (listeners w') (f', ev) \<noteq> None"
        using traceOkD(3) [OF p(6), of f' ev] assms(2) by (auto simp: t l)
    next
      fix f' assume "Init f' True \<in> set (trace w')"
      then show "f' < handles w'"
        using traceOkD(4) [OF p(6), of f'] by (auto simp: t h)
    next
      fix f' ev assume "Init f' True \<in> set (trace w')"
      then show "map_of (listeners w') (f', ev) = None"
        using traceOkD(5) [OF p(6), of f' ev] by (auto simp: t l)
    qed
  qed
  moreover have "promisesOk w'" using p(7) by (simp add: promisesOk_def w')
  ultimately show ?thesis by (simp add: worldInv_def)
qed

lemma inv_loadFile:
  assumes "worldInv w"
  shows "worldInv (snd (loadFile p beh w))"
proof -
  obtain k w1 where g: "getCacheKey p w = (k, w1)" by (cases "getCacheKey p w")
  note i1 = getCacheKey_inv [OF assms g]
  have kb: "keyBound k w1" using getCacheKey_keyBound [OF _ g] assms by (simp add: worldInv_def)
  show ?thesis
  proof (cases "map_of (cache w1) k")
    case (Some e)
    show ?thesis unfolding loadFile_hit [OF g Some] snd_conv by (rule inv_refCount [OF i1 Some])
  next
    case None
    show ?thesis
    proof (cases "map_of (pendingLoads w1) k")
      case (Some pl)
      show ?thesis unfolding loadFile_join [OF g None Some] snd_conv by (rule i1)
    next
      case pn: None
      show ?thesis
      proof (cases beh)
        case Starts
        show ?thesis unfolding Starts loadFile_miss_Starts [OF g None pn] snd_conv
          by (rule inv_miss_Starts [OF i1 kb None refl]) simp
      next
        case CtorThrows
        show ?thesis unfolding CtorThrows loadFile_miss_CtorThrows [OF g None pn] snd_conv
          by (rule inv_miss_fail [OF i1 kb None, where h' = "handles w1" and xs = "[Construct p None, ConsoleError]" and p = p])
             auto
      next
        case InitThrows
        show ?thesis unfolding InitThrows loadFile_miss_InitThrows [OF g None pn] snd_conv
          by (rule inv_miss_fail [OF i1 kb None, where h' = "handles w1 + 1"
                and xs = "[Construct p (Some (handles w1)), Init (handles w1) True, ConsoleError]" and p = p])
             auto
      qed
    qed
  qed
qed

lemma inv_releaseFile:
  assumes "worldInv w"
  shows "worldInv (snd (releaseFile p t w))"
proof -
  obtain k w1 where g: "getCacheKey p w = (k, w1)" by (cases "getCacheKey p w")
  note i1 = getCacheKey_inv [OF assms g]
  show ?thesis
  proof (cases "map_of (cache w1) k")
    case None
    show ?thesis unfolding releaseFile_miss [OF g None] snd_conv by (rule i1)
  next
    case (Some e)
    show ?thesis
    proof (cases "1 < refCount e")
      case True
      show ?thesis unfolding releaseFile_keep [OF g Some True] snd_conv by (rule inv_refCount [OF i1 Some])
    next
      case False
      then have le: "refCount e \<le> 1" by simp
      show ?thesis unfolding releaseFile_drop [OF g Some le] snd_conv
        by (rule inv_drop [OF i1 Some, where t = t]) auto
    qed
  qed
qed

lemma inv_clearCache:
  assumes "worldInv w"
  shows "worldInv (snd (clearCache t w))"
  unfolding clearCache_eq snd_conv by (rule inv_clear [OF assms])

lemma inv_notify:
  assumes "worldInv w" "map_of (listeners w) (f, ev) \<noteq> None" "\<not> notified f w"
  shows "worldInv (notify f ev t w)"
proof -
  from assms(2) obtain c where c: "map_of (listeners w) (f, ev) = Some c" by blast
  show ?thesis
  proof (cases ev)
    case Load
    note c' = c [unfolded Load]
    show ?thesis
    proof (cases t)
      case True
      then have tt: "t = True" by simp
      show ?thesis unfolding Load tt notify_Load_throws [OF c']
        by (rule inv_notify_throws [OF assms(1) c' assms(3) refl])
    next
      case False
      then have ff: "t = False" by simp
      show ?thesis unfolding Load ff notify_Load_ok [OF c']
        by (rule inv_settle, rule inv_notify_Load [OF assms(1) c' assms(3) refl])
    qed
  next
    case LoadError
    note c' = c [unfolded LoadError]
    show ?thesis unfolding LoadError notify_LoadError [OF c']
      by (rule inv_settle, rule inv_notify_LoadError [OF assms(1) c' assms(3) refl])
  qed
qed

lemma inv_exec:
  assumes "worldInv w" "enabled op w"
  shows "worldInv (exec op w)"
  using assms
  by (cases op) (simp_all add: inv_loadFile inv_releaseFile inv_clearCache inv_notify)

lemma steps_inv: "steps w w' \<Longrightarrow> worldInv w \<Longrightarrow> worldInv w'"
  by (induction rule: steps.induct) (simp_all add: inv_exec)

lemma reachable_inv: "reachable w \<Longrightarrow> worldInv w"
  unfolding reachable_def using steps_inv inv_initWorld by blast

lemma steps_trans: "steps w1 w2 \<Longrightarrow> steps w w1 \<Longrightarrow> steps w w2"
  by (induction rule: steps.induct) (auto intro: steps.intros)

lemma reachable_steps: "reachable w \<Longrightarrow> steps w w' \<Longrightarrow> reachable w'"
  unfolding reachable_def by (blast intro: steps_trans)

section \<open>Example worlds\<close>

lemma reachable_init: "reachable (initWorld content)"
  unfolding reachable_def by (blast intro: steps.stay)

lemma reachable_exec: "reachable w \<Longrightarrow> enabled op w \<Longrightarrow> reachable (exec op w)"
  unfolding reachable_def by (blast intro: steps.move)

lemmas example_defs = exampleWorld_def aRiv_def bufferParams_def initWorld_def getCacheKey_def
  truthyString_def truthyNumber_def

section \<open>Synchronous failure (C3)\<close>

text \<open>
  C3 says that a \<^verbatim>\<open>loadFile\<close> miss whose handle throws during construction or
  initialisation ends like an asynchronous load failure: the state is
  \<open>{ null, Failed }\<close> and the key is absent from the in-flight table. The promise
  executor runs inside \<^verbatim>\<open>loadRiveFile\<close>, so its \<^verbatim>\<open>catch\<close> block deletes the key
  before \<^verbatim>\<open>loadFile\<close> has registered it; \<^verbatim>\<open>loadFile\<close> then registers the failed load.
  For \<^verbatim>\<open>loadFile({src: 'a.riv'})\<close> on a new service with a throwing constructor, or a
  throwing \<open>init\<close>, the state is \<open>Failed\<close> and the key stays in \<open>pendingLoads\<close>, so
  that the next \<^verbatim>\<open>loadFile\<close> for the key joins the failed load and changes nothing;
  whereas after a load-error notification the state is \<open>Failed\<close> and the key is gone.
\<close>

theorem loadFile_sync_throw_stays_pending:
  "map_of (pendingLoads (snd (loadFile aRiv CtorThrows exampleWorld))) ''src:a.riv''
     = Some \<lparr> stateSignal = 0, promise = 0 \<rparr>
   \<and> map_of (pendingLoads (snd (loadFile aRiv InitThrows exampleWorld))) ''src:a.riv''
     = Some \<lparr> stateSignal = 0, promise = 0 \<rparr>
   \<and> readSignal (ReadonlySignal 0) (snd (loadFile aRiv CtorThrows exampleWorld))
     = Some \<lparr> riveFile = None, status = Failed \<rparr>
   \<and> loadFile aRiv Starts (snd (loadFile aRiv CtorThrows exampleWorld))
     = (Inr (ReadonlySignal 0), snd (loadFile aRiv CtorThrows exampleWorld))
   \<and> map_of (pendingLoads (notify 0 LoadError False (snd (loadFile aRiv Starts exampleWorld)))) ''src:a.riv''
     = None
   \<and> readSignal (ReadonlySignal 0) (notify 0 LoadError False (snd (loadFile aRiv Starts exampleWorld)))
     = Some \<lparr> riveFile = None, status = Failed \<rparr>"
  by (simp add: svc_defs example_defs readSignal_def Let_def)

section \<open>Pending and cached are exclusive (C8)\<close>

text \<open>
  C8: in every world reachable by \<^verbatim>\<open>loadFile\<close>, \<^verbatim>\<open>releaseFile\<close>,
  \<^verbatim>\<open>clearCache\<close> and load notifications, no key is in both the in-flight table and
  the cache map.
\<close>

theorem pending_and_cached_disjoint:
  assumes "reachable w"
  shows "map_of (cache w) k = None \<or> map_of (pendingLoads w) k = None"
  using inv_parts(1) [OF reachable_inv [OF assms]] by (simp add: disjointTables_def)

lemma loadingWorld_eq:
  "loadingWorld =
     \<lparr> cache = [], pendingLoads = [(''src:a.riv'', \<lparr> stateSignal = 0, promise = 0 \<rparr>)],
       bufferIdCounter = 0, heap = (\<lambda>b. \<lparr> bytes = [0x52, 0x49, 0x56, 0x45], riveBufferId = None \<rparr>),
       signals = [\<lparr> riveFile = None, status = Loading \<rparr>], promises = [Pending], handles = 1,
       listeners = [((0, Load), \<lparr> cl_file = 0, cl_stateSignal = 0, cl_cacheKey = ''src:a.riv'', cl_resolve = 0 \<rparr>),
                    ((0, LoadError), \<lparr> cl_file = 0, cl_stateSignal = 0, cl_cacheKey = ''src:a.riv'', cl_resolve = 0 \<rparr>)],
       trace = [Construct aRiv (Some 0), Init 0 False, On 0 Load, On 0 LoadError] \<rparr>"
  by (simp add: loadingWorld_def svc_defs example_defs Let_def)

lemma loadedWorld_eq:
  "loadedWorld =
     \<lparr> cache = [(''src:a.riv'', \<lparr> entryFile = 0, state = ReadonlySignal 0, refCount = 1 \<rparr>)],
       pendingLoads = [],
       bufferIdCounter = 0, heap = (\<lambda>b. \<lparr> bytes = [0x52, 0x49, 0x56, 0x45], riveBufferId = None \<rparr>),
       signals = [\<lparr> riveFile = Some 0, status = Success \<rparr>], promises = [Resolved], handles = 1,
       listeners = [((0, Load), \<lparr> cl_file = 0, cl_stateSignal = 0, cl_cacheKey = ''src:a.riv'', cl_resolve = 0 \<rparr>),
                    ((0, LoadError), \<lparr> cl_file = 0, cl_stateSignal = 0, cl_cacheKey = ''src:a.riv'', cl_resolve = 0 \<rparr>)],
       trace = [Construct aRiv (Some 0), Init 0 False, On 0 Load, On 0 LoadError,
                Notify 0 Load, GetInstance 0 False] \<rparr>"
  by (simp add: loadedWorld_def loadingWorld_eq svc_defs Let_def)

lemma loadingWorld_reachable: "reachable loadingWorld"
  unfolding loadingWorld_def exampleWorld_def by (rule reachable_exec [OF reachable_init]) simp

lemma loadedWorld_reachable: "reachable loadedWorld"
  unfolding loadedWorld_def
  by (rule reachable_exec [OF loadingWorld_reachable]) (simp add: loadingWorld_eq notified_def)

text \<open>The world after a completed load: the key is cached and not pending.\<close>

theorem pending_and_cached_disjoint_witness:
  "reachable loadedWorld
   \<and> map_of (cache loadedWorld) ''src:a.riv'' \<noteq> None
   \<and> map_of (pendingLoads loadedWorld) ''src:a.riv'' = None"
  using pending_and_cached_disjoint [OF loadedWorld_reachable, of "''src:a.riv''"] loadedWorld_reachable
  by (simp add: loadedWorld_eq)

section \<open>Reading the trace, and deriving a key again\<close>

lemma constructCalls_append [simp]: "constructCalls (xs @ ys) = constructCalls xs @ constructCalls ys"
  by (induction xs rule: constructCalls.induct) simp_all

lemma initCalls_append [simp]: "initCalls (xs @ ys) = initCalls xs @ initCalls ys"
  by (induction xs rule: initCalls.induct) simp_all

lemma cleanupCalls_append [simp]: "cleanupCalls (xs @ ys) = cleanupCalls xs @ cleanupCalls ys"
  by (induction xs rule: cleanupCalls.induct) simp_all

lemma getCacheKey_again:
  assumes "getCacheKey p w = (k, w1)" "heap w2 = heap w1" "bufferIdCounter w2 = bufferIdCounter w1"
  shows "getCacheKey p w2 = (k, w2)"
  using assms
  by (auto simp: getCacheKey_def Let_def truthyNumber_def split: option.splits if_splits)

section \<open>Cache hits (C4)\<close>

lemma getCacheKey_cached_unchanged:
  assumes "worldInv w" "getCacheKey p w = (k, w1)" "map_of (cache w) k = Some e"
  shows "w1 = w"
proof -
  from keysOk_cache [OF inv_parts(3) [OF assms(1)] assms(3)]
  have "\<not> bufferIdCounter w + 1 \<le> bufferIdCounter w \<Longrightarrow> k \<noteq> ''buffer:'' @ decimal (bufferIdCounter w + 1)"
    unfolding keyBound_def by blast
  with getCacheKey_cases [OF assms(2)] show ?thesis by auto
qed

text \<open>
  C4: when the key of the parameters has a cache entry, \<^verbatim>\<open>loadFile\<close> returns the state
  reference stored in the entry, which already reports \<open>Success\<close> with the entry's
  handle; the only change to the world is that the entry's \<open>refCount\<close> is one higher.
  In particular the trace is unchanged: no handle is constructed.
\<close>

theorem loadFile_cache_hit:
  assumes "reachable w" "map_of (cache w) (fst (getCacheKey params w)) = Some entry"
  shows "loadFile params beh w =
           (Inr (state entry),
            w\<lparr> cache := AList.update (fst (getCacheKey params w))
                          (entry\<lparr> refCount := refCount entry + 1 \<rparr>) (cache w) \<rparr>)
         \<and> readSignal (state entry) w = Some \<lparr> riveFile = Some (entryFile entry), status = Success \<rparr>
         \<and> trace (snd (loadFile params beh w)) = trace w
         \<and> constructCalls (trace (snd (loadFile params beh w))) = constructCalls (trace w)"
proof -
  obtain k w1 where g: "getCacheKey params w = (k, w1)" by (cases "getCacheKey params w")
  note i = reachable_inv [OF assms(1)]
  from assms(2) g have e: "map_of (cache w) k = Some entry" by simp
  have w1: "w1 = w" by (rule getCacheKey_cached_unchanged [OF i g e])
  from e w1 have e1: "map_of (cache w1) k = Some entry" by simp
  have "loadFile params beh w =
           (Inr (state entry), w\<lparr> cache := AList.update k (entry\<lparr> refCount := refCount entry + 1 \<rparr>) (cache w) \<rparr>)"
    using loadFile_hit [OF g e1] by (simp add: w1)
  moreover have "readSignal (state entry) w = Some \<lparr> riveFile = Some (entryFile entry), status = Success \<rparr>"
    by (rule entriesOkD(3) [OF inv_parts(5) [OF i] e])
  ultimately show ?thesis using g by simp
qed

text \<open>
  A second \<^verbatim>\<open>loadFile\<close> of \<^verbatim>\<open>a.riv\<close> after its load has completed: the entry's
  state reference is returned and the \<open>refCount\<close> goes from 1 to 2.
\<close>

theorem loadFile_cache_hit_witness:
  "reachable loadedWorld
   \<and> map_of (cache loadedWorld) (fst (getCacheKey aRiv loadedWorld))
       = Some \<lparr> entryFile = 0, state = ReadonlySignal 0, refCount = 1 \<rparr>
   \<and> loadFile aRiv Starts loadedWorld =
       (Inr (ReadonlySignal 0),
        loadedWorld\<lparr> cache := [(''src:a.riv'', \<lparr> entryFile = 0, state = ReadonlySignal 0, refCount = 2 \<rparr>)] \<rparr>)
   \<and> readSignal (ReadonlySignal 0) loadedWorld = Some \<lparr> riveFile = Some 0, status = Success \<rparr>"
proof -
  have k: "getCacheKey aRiv loadedWorld = (''src:a.riv'', loadedWorld)"
    by (simp add: getCacheKey_def truthyString_def aRiv_def)
  have e: "map_of (cache loadedWorld) (fst (getCacheKey aRiv loadedWorld))
       = Some \<lparr> entryFile = 0, state = ReadonlySignal 0, refCount = 1 \<rparr>"
    by (simp add: k) (simp add: loadedWorld_eq)
  have c: "cache loadedWorld = [(''src:a.riv'', \<lparr> entryFile = 0, state = ReadonlySignal 0, refCount = 1 \<rparr>)]"
    by (simp add: loadedWorld_eq)
  from loadFile_cache_hit [OF loadedWorld_reachable e, of Starts] loadedWorld_reachable e
  show ?thesis by (simp add: k c)
qed

section \<open>Reference counting (C2)\<close>

lemma releaseMany_append:
  "releaseMany p (xs @ ys) w = releaseMany p ys (releaseMany p xs w)"
  by (induction xs arbitrary: w) simp_all

lemma releaseMany_keep:
  assumes "getCacheKey p w = (k, w)" "map_of (cache w) k = Some e" "int (length ts) < refCount e"
  shows "releaseMany p ts w =
           w\<lparr> cache := AList.update k (e\<lparr> refCount := refCount e - int (length ts) \<rparr>) (cache w) \<rparr>"
  using assms
proof (induction ts arbitrary: w e)
  case Nil
  then show ?case by (simp add: update_triv)
next
  case (Cons t ts)
  let ?e = "e\<lparr> refCount := refCount e - 1 \<rparr>"
  let ?w = "w\<lparr> cache := AList.update k ?e (cache w) \<rparr>"
  from Cons.prems(3) have gt: "1 < refCount e" by simp
  have r: "snd (releaseFile p t w) = ?w"
    by (simp add: releaseFile_keep [OF Cons.prems(1,2) gt])
  have g: "getCacheKey p ?w = (k, ?w)"
    by (rule getCacheKey_again [OF Cons.prems(1)]) simp_all
  have c: "map_of (cache ?w) k = Some ?e" by (simp add: update_conv')
  from Cons.prems(3) have lt: "int (length ts) < refCount ?e" by simp
  have "releaseMany p (t # ts) w = releaseMany p ts ?w" by (simp add: r)
  also have "\<dots> = ?w\<lparr> cache := AList.update k (?e\<lparr> refCount := refCount ?e - int (length ts) \<rparr>) (cache ?w) \<rparr>"
    by (rule Cons.IH [OF g c lt])
  also have "\<dots> = w\<lparr> cache := AList.update k (e\<lparr> refCount := refCount e - int (length (t # ts)) \<rparr>) (cache w) \<rparr>"
    by (simp add: diff_diff_eq)
  finally show ?case .
qed

text \<open>
  Calls of \<^verbatim>\<open>loadFile\<close> for a cached key add one to the \<open>refCount\<close> each: after the
  load has succeeded (\<open>refCount = 1\<close>) and \<open>N - 1\<close> further calls, the \<open>refCount\<close> is \<open>N\<close>.
\<close>

lemma loadMany_refCount:
  assumes "getCacheKey p w = (k, w)" "map_of (cache w) k = Some e"
  shows "loadMany p n w = w\<lparr> cache := AList.update k (e\<lparr> refCount := refCount e + int n \<rparr>) (cache w) \<rparr>"
  using assms
proof (induction n arbitrary: w e)
  case 0
  then show ?case by (simp add: update_triv)
next
  case (Suc n)
  let ?e = "e\<lparr> refCount := refCount e + 1 \<rparr>"
  let ?w = "w\<lparr> cache := AList.update k ?e (cache w) \<rparr>"
  have r: "snd (loadFile p Starts w) = ?w" by (simp add: loadFile_hit [OF Suc.prems])
  have g: "getCacheKey p ?w = (k, ?w)" by (rule getCacheKey_again [OF Suc.prems(1)]) simp_all
  have c: "map_of (cache ?w) k = Some ?e" by (simp add: update_conv')
  have "loadMany p (Suc n) w = loadMany p n ?w" by (simp add: r)
  also have "\<dots> = ?w\<lparr> cache := AList.update k (?e\<lparr> refCount := refCount ?e + int n \<rparr>) (cache ?w) \<rparr>"
    by (rule Suc.IH [OF g c])
  also have "\<dots> = w\<lparr> cache := AList.update k (e\<lparr> refCount := refCount e + int (Suc n) \<rparr>) (cache w) \<rparr>"
    by (simp add: add.assoc)
  finally show ?case .
qed

text \<open>
  C2: an entry whose \<open>refCount\<close> is \<open>N \<ge> 1\<close> (the call that started the load, counted
  when the load succeeded, and \<open>N - 1\<close> calls after that) and \<open>N\<close> calls of
  \<^verbatim>\<open>releaseFile\<close> for its key. After \<open>i < N\<close> of the calls no cleanup has been added to
  the trace and the entry is still cached, with \<open>refCount = N - i\<close>; the \<open>N\<close>th call
  makes the one cleanup call, on the entry's handle, and removes the entry. \<open>ts\<close> tells
  for each call whether a cleanup made in it would throw.
\<close>

theorem releaseFile_N_times:
  assumes "getCacheKey params w = (cacheKey, w)" "map_of (cache w) cacheKey = Some entry"
    and "refCount entry = int N" "1 \<le> N" "length ts = N"
  shows "(\<forall>i<N. cleanupCalls (trace (releaseMany params (take i ts) w)) = cleanupCalls (trace w)
              \<and> map_of (cache (releaseMany params (take i ts) w)) cacheKey
                  = Some (entry\<lparr> refCount := int N - int i \<rparr>))
       \<and> cleanupCalls (trace (releaseMany params ts w)) = cleanupCalls (trace w) @ [entryFile entry]
       \<and> map_of (cache (releaseMany params ts w)) cacheKey = None"
proof -
  have before: "releaseMany params (take i ts) w =
      w\<lparr> cache := AList.update cacheKey (entry\<lparr> refCount := int N - int i \<rparr>) (cache w) \<rparr>"
    if "i < N" for i
  proof -
    from that assms(3,5) have "int (length (take i ts)) < refCount entry" by simp
    from releaseMany_keep [OF assms(1,2) this] that assms(3,5) show ?thesis by simp
  qed
  have part1: "\<forall>i<N. cleanupCalls (trace (releaseMany params (take i ts) w)) = cleanupCalls (trace w)
              \<and> map_of (cache (releaseMany params (take i ts) w)) cacheKey
                  = Some (entry\<lparr> refCount := int N - int i \<rparr>)"
    by (simp add: before update_conv')
  let ?e = "entry\<lparr> refCount := 1 \<rparr>"
  let ?w = "w\<lparr> cache := AList.update cacheKey ?e (cache w) \<rparr>"
  from assms(4,5) have ne: "ts \<noteq> []" by auto
  then have ts: "ts = take (N - 1) ts @ [last ts]"
    using assms(5) by (metis append_butlast_last_id butlast_conv_take)
  from assms(4) have "releaseMany params (take (N - 1) ts) w = ?w"
    using before [of "N - 1"] by (simp add: of_nat_diff)
  then have fin: "releaseMany params ts w = snd (releaseFile params (last ts) ?w)"
    by (subst ts) (simp add: releaseMany_append)
  have g: "getCacheKey params ?w = (cacheKey, ?w)"
    by (rule getCacheKey_again [OF assms(1)]) simp_all
  have c: "map_of (cache ?w) cacheKey = Some ?e" by (simp add: update_conv')
  have le: "refCount ?e \<le> 1" by simp
  have part2: "cleanupCalls (trace (releaseMany params ts w)) = cleanupCalls (trace w) @ [entryFile entry]"
    unfolding fin releaseFile_drop [OF g c le] by simp
  have part3: "map_of (cache (releaseMany params ts w)) cacheKey = None"
    unfolding fin releaseFile_drop [OF g c le] by (simp add: delete_conv')
  from part1 part2 part3 show ?thesis by blast
qed

lemma sharedWorld_eq:
  "sharedWorld = loadedWorld\<lparr> cache := [(''src:a.riv'', \<lparr> entryFile = 0, state = ReadonlySignal 0, refCount = 2 \<rparr>)] \<rparr>"
  unfolding sharedWorld_def by (simp add: loadedWorld_eq svc_defs example_defs Let_def)

text \<open>
  \<^verbatim>\<open>loadFile\<close>, the load notification and a second \<^verbatim>\<open>loadFile\<close> give
  \<open>refCount = 2\<close>; the first release keeps the entry and the second cleans up.
\<close>

theorem releaseFile_N_times_witness:
  "getCacheKey aRiv sharedWorld = (''src:a.riv'', sharedWorld)
   \<and> map_of (cache sharedWorld) ''src:a.riv'' = Some \<lparr> entryFile = 0, state = ReadonlySignal 0, refCount = 2 \<rparr>
   \<and> cleanupCalls (trace sharedWorld) = []
   \<and> cleanupCalls (trace (releaseMany aRiv [False] sharedWorld)) = []
   \<and> map_of (cache (releaseMany aRiv [False] sharedWorld)) ''src:a.riv''
        = Some \<lparr> entryFile = 0, state = ReadonlySignal 0, refCount = 1 \<rparr>
   \<and> cleanupCalls (trace (releaseMany aRiv [False, True] sharedWorld)) = [0]
   \<and> map_of (cache (releaseMany aRiv [False, True] sharedWorld)) ''src:a.riv'' = None"
proof -
  have g: "getCacheKey aRiv sharedWorld = (''src:a.riv'', sharedWorld)"
    by (simp add: getCacheKey_def truthyString_def aRiv_def)
  have c: "map_of (cache sharedWorld) ''src:a.riv'' = Some \<lparr> entryFile = 0, state = ReadonlySignal 0, refCount = 2 \<rparr>"
    by (simp add: sharedWorld_eq)
  have t: "cleanupCalls (trace sharedWorld) = []"
    by (simp add: sharedWorld_eq loadedWorld_eq)
  have "\<forall>i<2. cleanupCalls (trace (releaseMany aRiv (take i [False, True]) sharedWorld)) = []
              \<and> map_of (cache (releaseMany aRiv (take i [False, True]) sharedWorld)) ''src:a.riv''
                  = Some \<lparr> entryFile = 0, state = ReadonlySignal 0, refCount = 2 - int i \<rparr>"
    and fin: "cleanupCalls (trace (releaseMany aRiv [False, True] sharedWorld)) = [0]"
      "map_of (cache (releaseMany aRiv [False, True] sharedWorld)) ''src:a.riv'' = None"
    using releaseFile_N_times [OF g c, of 2 "[False, True]"] by (simp_all add: t)
  then have "cleanupCalls (trace (releaseMany aRiv (take 1 [False, True]) sharedWorld)) = []
              \<and> map_of (cache (releaseMany aRiv (take 1 [False, True]) sharedWorld)) ''src:a.riv''
                  = Some \<lparr> entryFile = 0, state = ReadonlySignal 0, refCount = 2 - int 1 \<rparr>"
    by (metis one_less_numeral_iff semiring_norm(76))
  with g c t fin show ?thesis by simp
qed

section \<open>Clearing the cache (C6)\<close>

lemma cleanupCalls_cleanupEffects: "cleanupCalls (cleanupEffects es t) = map (entryFile \<circ> snd) es"
  by (induction es) simp_all

lemma entries_distinct_files:
  assumes "entriesOk w"
  shows "distinct (map (entryFile \<circ> snd) (cache w))"
proof -
  note d = entriesOk_distinct [OF assms]
  have "inj_on (entryFile \<circ> snd) (set (cache w))"
  proof (rule inj_onI)
    fix x y assume x: "x \<in> set (cache w)" and y: "y \<in> set (cache w)"
      and eq: "(entryFile \<circ> snd) x = (entryFile \<circ> snd) y"
    obtain k e where xe: "x = (k, e)" by (cases x)
    obtain k' e' where ye: "y = (k', e')" by (cases y)
    from x xe d have mx: "map_of (cache w) k = Some e" by simp
    from y ye d have my: "map_of (cache w) k' = Some e'" by simp
    from entriesOkD(1) [OF assms mx] entriesOkD(1) [OF assms my] eq xe ye
    have "k = k'" by auto
    with mx my xe ye show "x = y" by simp
  qed
  moreover from d have "distinct (cache w)" by (simp add: distinct_map)
  ultimately show ?thesis by (simp add: distinct_map)
qed

text \<open>
  C6: \<^verbatim>\<open>clearCache\<close> returns normally whichever cleanups throw; the cleanup calls it
  adds to the trace are exactly one per cache entry, in the order of the map, whatever
  the \<open>refCount\<close>; afterwards the cache is empty and the in-flight table, the listeners,
  the signals and the promises are as before. In a reachable world the entries have
  distinct keys and distinct handles, so no handle is cleaned twice. A load that is
  still in progress (a handle subscribed with closure \<open>c\<close>) completes afterwards into
  the empty cache: its success handler leaves exactly one entry, with \<open>refCount = 1\<close>,
  and removes its key from the in-flight table.
\<close>

theorem clearCache_cleans_every_entry:
  "fst (clearCache throws w) = Inr ()
   \<and> cleanupCalls (trace (snd (clearCache throws w)))
       = cleanupCalls (trace w) @ map (entryFile \<circ> snd) (cache w)
   \<and> cache (snd (clearCache throws w)) = []
   \<and> pendingLoads (snd (clearCache throws w)) = pendingLoads w
   \<and> listeners (snd (clearCache throws w)) = listeners w
   \<and> signals (snd (clearCache throws w)) = signals w
   \<and> promises (snd (clearCache throws w)) = promises w
   \<and> (reachable w \<longrightarrow> distinct (map fst (cache w)) \<and> distinct (map (entryFile \<circ> snd) (cache w)))
   \<and> (map_of (listeners w) (f, Load) = Some c \<longrightarrow>
        cache (notify f Load False (snd (clearCache throws w)))
          = [(cl_cacheKey c, \<lparr> entryFile = cl_file c, state = ReadonlySignal (cl_stateSignal c), refCount = 1 \<rparr>)]
        \<and> map_of (pendingLoads (notify f Load False (snd (clearCache throws w)))) (cl_cacheKey c) = None)"
proof -
  let ?w = "snd (clearCache throws w)"
  have w': "?w = w\<lparr> cache := [], trace := trace w @ cleanupEffects (cache w) throws \<rparr>"
    by (simp add: clearCache_eq)
  have a: "fst (clearCache throws w) = Inr ()" by (simp add: clearCache_eq)
  have b: "cleanupCalls (trace ?w) = cleanupCalls (trace w) @ map (entryFile \<circ> snd) (cache w)"
    by (simp add: w' cleanupCalls_cleanupEffects)
  have d: "reachable w \<longrightarrow> distinct (map fst (cache w)) \<and> distinct (map (entryFile \<circ> snd) (cache w))"
    using entriesOk_distinct entries_distinct_files inv_parts(5) reachable_inv by blast
  have e: "cache (notify f Load False ?w)
          = [(cl_cacheKey c, \<lparr> entryFile = cl_file c, state = ReadonlySignal (cl_stateSignal c), refCount = 1 \<rparr>)]
        \<and> map_of (pendingLoads (notify f Load False ?w)) (cl_cacheKey c) = None"
    if l: "map_of (listeners w) (f, Load) = Some c"
  proof -
    from l have l': "map_of (listeners ?w) (f, Load) = Some c" by (simp add: w')
    show ?thesis unfolding notify_Load_ok [OF l'] by (simp add: w' delete_conv')
  qed
  from a b d e show ?thesis by (simp add: w')
qed

lemma busyWorld_eq:
  "busyWorld =
     \<lparr> cache = [(''src:a.riv'', \<lparr> entryFile = 0, state = ReadonlySignal 0, refCount = 1 \<rparr>),
                (''src:b.riv'', \<lparr> entryFile = 1, state = ReadonlySignal 1, refCount = 1 \<rparr>)],
       pendingLoads = [(''src:c.riv'', \<lparr> stateSignal = 2, promise = 2 \<rparr>)],
       bufferIdCounter = 0, heap = (\<lambda>b. \<lparr> bytes = [0x52, 0x49, 0x56, 0x45], riveBufferId = None \<rparr>),
       signals = [\<lparr> riveFile = Some 0, status = Success \<rparr>, \<lparr> riveFile = Some 1, status = Success \<rparr>,
                  \<lparr> riveFile = None, status = Loading \<rparr>],
       promises = [Resolved, Resolved, Pending], handles = 3,
       listeners = [((0, Load), \<lparr> cl_file = 0, cl_stateSignal = 0, cl_cacheKey = ''src:a.riv'', cl_resolve = 0 \<rparr>),
                    ((0, LoadError), \<lparr> cl_file = 0, cl_stateSignal = 0, cl_cacheKey = ''src:a.riv'', cl_resolve = 0 \<rparr>),
                    ((1, Load), \<lparr> cl_file = 1, cl_stateSignal = 1, cl_cacheKey = ''src:b.riv'', cl_resolve = 1 \<rparr>),
                    ((1, LoadError), \<lparr> cl_file = 1, cl_stateSignal = 1, cl_cacheKey = ''src:b.riv'', cl_resolve = 1 \<rparr>),
                    ((2, Load), \<lparr> cl_file = 2, cl_stateSignal = 2, cl_cacheKey = ''src:c.riv'', cl_resolve = 2 \<rparr>),
                    ((2, LoadError), \<lparr> cl_file = 2, cl_stateSignal = 2, cl_cacheKey = ''src:c.riv'', cl_resolve = 2 \<rparr>)],
       trace = [Construct aRiv (Some 0), Init 0 False, On 0 Load, On 0 LoadError,
                Notify 0 Load, GetInstance 0 False,
                Construct bRiv (Some 1), Init 1 False, On 1 Load, On 1 LoadError,
                Notify 1 Load, GetInstance 1 False,
                Construct cRiv (Some 2), Init 2 False, On 2 Load, On 2 LoadError] \<rparr>"
  by (simp add: busyWorld_def loadedWorld_eq svc_defs example_defs bRiv_def cRiv_def Let_def)

lemma busyWorld_reachable: "reachable busyWorld"
proof -
  have 1: "reachable (exec (LoadFile bRiv Starts) loadedWorld)"
    by (rule reachable_exec [OF loadedWorld_reachable]) simp
  have 2: "reachable (exec (Fire 1 Load False) (exec (LoadFile bRiv Starts) loadedWorld))"
    by (rule reachable_exec [OF 1])
       (simp add: loadedWorld_eq svc_defs example_defs bRiv_def Let_def notified_def)
  show ?thesis unfolding busyWorld_def by (rule reachable_exec [OF 2]) simp
qed

text \<open>
  Two cached files and one load in progress; the cleanup of the first handle throws.
  Both handles are cleaned, and the third load then completes into the empty cache.
\<close>

theorem clearCache_cleans_every_entry_witness:
  "reachable busyWorld
   \<and> map_of (listeners busyWorld) (2, Load)
       = Some \<lparr> cl_file = 2, cl_stateSignal = 2, cl_cacheKey = ''src:c.riv'', cl_resolve = 2 \<rparr>
   \<and> cleanupCalls (trace (snd (clearCache (\<lambda>f. f = 0) busyWorld))) = [0, 1]
   \<and> cache (snd (clearCache (\<lambda>f. f = 0) busyWorld)) = []
   \<and> pendingLoads (snd (clearCache (\<lambda>f. f = 0) busyWorld)) = [(''src:c.riv'', \<lparr> stateSignal = 2, promise = 2 \<rparr>)]
   \<and> cache (notify 2 Load False (snd (clearCache (\<lambda>f. f = 0) busyWorld)))
       = [(''src:c.riv'', \<lparr> entryFile = 2, state = ReadonlySignal 2, refCount = 1 \<rparr>)]
   \<and> map_of (pendingLoads (notify 2 Load False (snd (clearCache (\<lambda>f. f = 0) busyWorld)))) ''src:c.riv'' = None"
proof -
  have l: "map_of (listeners busyWorld) (2, Load)
       = Some \<lparr> cl_file = 2, cl_stateSignal = 2, cl_cacheKey = ''src:c.riv'', cl_resolve = 2 \<rparr>"
    by (simp add: busyWorld_eq)
  have f: "cleanupCalls (trace busyWorld) = []" "map (entryFile \<circ> snd) (cache busyWorld) = [0, 1]"
    "pendingLoads busyWorld = [(''src:c.riv'', \<lparr> stateSignal = 2, promise = 2 \<rparr>)]"
    by (simp_all add: busyWorld_eq aRiv_def bRiv_def cRiv_def)
  from clearCache_cleans_every_entry [of "\<lambda>f. f = 0" busyWorld 2
      "\<lparr> cl_file = 2, cl_stateSignal = 2, cl_cacheKey = ''src:c.riv'', cl_resolve = 2 \<rparr>"]
    busyWorld_reachable l
  show ?thesis by (simp add: f)
qed

section \<open>Failure is reported through the state only (C5)\<close>

lemma loadFile_returns: "\<exists>v w'. loadFile p beh w = (Inr v, w')"
proof -
  obtain k w1 where g: "getCacheKey p w = (k, w1)" by (cases "getCacheKey p w")
  show ?thesis
  proof (cases "map_of (cache w1) k")
    case (Some e)
    show ?thesis using loadFile_hit [OF g Some] by simp
  next
    case None
    show ?thesis
    proof (cases "map_of (pendingLoads w1) k")
      case (Some pl)
      show ?thesis using loadFile_join [OF g None Some] by simp
    next
      case pn: None
      show ?thesis
        using loadFile_miss_Starts [OF g None pn] loadFile_miss_CtorThrows [OF g None pn]
          loadFile_miss_InitThrows [OF g None pn]
        by (cases beh) simp_all
    qed
  qed
qed

lemma settle_Resolved:
  assumes "p < length (promises w)" "promises w ! p \<noteq> Rejected"
  shows "promises (settle p Resolved w) ! p = Resolved"
  using assms by (cases "promises w ! p") (simp_all add: settle_def)

text \<open>
  C5: \<^verbatim>\<open>loadFile\<close> returns a state reference and never throws; no promise of a
  reachable world is rejected; and on each path on which an episode settles its promise
  is resolved while the outcome is written to the state: \<open>Failed\<close> when the constructor
  or \<open>init\<close> throws (the promise is the one just created), \<open>Failed\<close> when the load-error
  notification is delivered, \<open>Success\<close> when the load notification is delivered.
\<close>

theorem failure_only_in_status:
  assumes "reachable w"
  shows "(\<exists>v. fst (loadFile params beh w) = Inr v)
       \<and> Rejected \<notin> set (promises w)
       \<and> (getCacheKey params w = (k, w1) \<and> map_of (cache w1) k = None
            \<and> map_of (pendingLoads w1) k = None \<and> beh \<noteq> Starts \<longrightarrow>
           fst (loadFile params beh w) = Inr (ReadonlySignal (length (signals w)))
           \<and> readSignal (ReadonlySignal (length (signals w))) (snd (loadFile params beh w))
                = Some \<lparr> riveFile = None, status = Failed \<rparr>
           \<and> promises (snd (loadFile params beh w)) = promises w @ [Resolved])
       \<and> (enabled (Fire f LoadError t) w \<and> map_of (listeners w) (f, LoadError) = Some c \<longrightarrow>
           readSignal (ReadonlySignal (cl_stateSignal c)) (notify f LoadError t w)
                = Some \<lparr> riveFile = None, status = Failed \<rparr>
           \<and> promises (notify f LoadError t w) ! cl_resolve c = Resolved)
       \<and> (enabled (Fire f Load False) w \<and> map_of (listeners w) (f, Load) = Some c \<longrightarrow>
           readSignal (ReadonlySignal (cl_stateSignal c)) (notify f Load False w)
                = Some \<lparr> riveFile = Some f, status = Success \<rparr>
           \<and> promises (notify f Load False w) ! cl_resolve c = Resolved)"
proof -
  note i = reachable_inv [OF assms]
  note p = inv_parts [OF i]
  have a: "\<exists>v. fst (loadFile params beh w) = Inr v"
    using loadFile_returns [of params beh w] by auto
  have b: "Rejected \<notin> set (promises w)" using p(7) by (simp add: promisesOk_def)
  have c: "fst (loadFile params beh w) = Inr (ReadonlySignal (length (signals w)))
           \<and> readSignal (ReadonlySignal (length (signals w))) (snd (loadFile params beh w))
                = Some \<lparr> riveFile = None, status = Failed \<rparr>
           \<and> promises (snd (loadFile params beh w)) = promises w @ [Resolved]"
    if g: "getCacheKey params w = (k, w1)" and cn: "map_of (cache w1) k = None"
      and pn: "map_of (pendingLoads w1) k = None" and beh: "beh \<noteq> Starts"
  proof -
    note fr = getCacheKey_frame [OF g]
    show ?thesis
    proof (cases beh)
      case Starts
      with beh show ?thesis by simp
    next
      case CtorThrows
      show ?thesis unfolding CtorThrows loadFile_miss_CtorThrows [OF g cn pn]
        by (simp add: readSignal_def fr)
    next
      case InitThrows
      show ?thesis unfolding InitThrows loadFile_miss_InitThrows [OF g cn pn]
        by (simp add: readSignal_def fr)
    qed
  qed
  have idx: "cl_stateSignal c < length (signals w) \<and> cl_resolve c < length (promises w)
              \<and> promises w ! cl_resolve c \<noteq> Rejected \<and> cl_file c = f"
    if l: "map_of (listeners w) (f, ev) = Some c" for ev
    using listenersOkD(1,3,4) [OF p(4) l] b by (metis nth_mem)
  have d: "readSignal (ReadonlySignal (cl_stateSignal c)) (notify f LoadError t w)
                = Some \<lparr> riveFile = None, status = Failed \<rparr>
           \<and> promises (notify f LoadError t w) ! cl_resolve c = Resolved"
    if l: "map_of (listeners w) (f, LoadError) = Some c"
    unfolding notify_LoadError [OF l] using idx [OF l]
    by (simp add: readSignal_def settle_Resolved)
  have e: "readSignal (ReadonlySignal (cl_stateSignal c)) (notify f Load False w)
                = Some \<lparr> riveFile = Some f, status = Success \<rparr>
           \<and> promises (notify f Load False w) ! cl_resolve c = Resolved"
    if l: "map_of (listeners w) (f, Load) = Some c"
    unfolding notify_Load_ok [OF l] using idx [OF l]
    by (simp add: readSignal_def settle_Resolved)
  from a b c d e show ?thesis by blast
qed

lemma failedWorld_eq:
  "failedWorld =
     \<lparr> cache = [], pendingLoads = [(''src:a.riv'', \<lparr> stateSignal = 0, promise = 0 \<rparr>)],
       bufferIdCounter = 0, heap = (\<lambda>b. \<lparr> bytes = [0x52, 0x49, 0x56, 0x45], riveBufferId = None \<rparr>),
       signals = [\<lparr> riveFile = None, status = Failed \<rparr>], promises = [Resolved], handles = 1,
       listeners = [],
       trace = [Construct aRiv (Some 0), Init 0 True, ConsoleError] \<rparr>"
  by (simp add: failedWorld_def svc_defs example_defs Let_def)

text \<open>
  On a new service: a load whose \<open>init\<close> throws, and a started load that is notified of
  an error, or of success.
\<close>

theorem failure_only_in_status_witness:
  "reachable exampleWorld \<and> reachable loadingWorld
   \<and> getCacheKey aRiv exampleWorld = (''src:a.riv'', exampleWorld)
   \<and> map_of (cache exampleWorld) ''src:a.riv'' = None
   \<and> map_of (pendingLoads exampleWorld) ''src:a.riv'' = None
   \<and> fst (loadFile aRiv InitThrows exampleWorld) = Inr (ReadonlySignal 0)
   \<and> readSignal (ReadonlySignal 0) failedWorld = Some \<lparr> riveFile = None, status = Failed \<rparr>
   \<and> promises failedWorld = [Resolved]
   \<and> enabled (Fire 0 LoadError False) loadingWorld
   \<and> enabled (Fire 0 Load False) loadingWorld
   \<and> readSignal (ReadonlySignal 0) (notify 0 LoadError False loadingWorld)
        = Some \<lparr> riveFile = None, status = Failed \<rparr>
   \<and> promises (notify 0 LoadError False loadingWorld) ! 0 = Resolved
   \<and> readSignal (ReadonlySignal 0) (notify 0 Load False loadingWorld)
        = Some \<lparr> riveFile = Some 0, status = Success \<rparr>
   \<and> promises (notify 0 Load False loadingWorld) ! 0 = Resolved
   \<and> Rejected \<notin> set (promises (notify 0 LoadError False loadingWorld))"
proof -
  let ?c = "\<lparr> cl_file = 0, cl_stateSignal = 0, cl_cacheKey = ''src:a.riv'', cl_resolve = 0 \<rparr>"
  have r0: "reachable exampleWorld" unfolding exampleWorld_def by (rule reachable_init)
  have g: "getCacheKey aRiv exampleWorld = (''src:a.riv'', exampleWorld)"
    by (simp add: getCacheKey_def truthyString_def aRiv_def)
  have z: "map_of (cache exampleWorld) ''src:a.riv'' = None"
    "map_of (pendingLoads exampleWorld) ''src:a.riv'' = None"
    "signals exampleWorld = []" "promises exampleWorld = []"
    by (simp_all add: exampleWorld_def initWorld_def)
  have en: "enabled (Fire 0 LoadError False) loadingWorld" "enabled (Fire 0 Load False) loadingWorld"
    by (simp_all add: loadingWorld_eq notified_def)
  have l: "map_of (listeners loadingWorld) (0, LoadError) = Some ?c"
    "map_of (listeners loadingWorld) (0, Load) = Some ?c"
    by (simp_all add: loadingWorld_eq)
  have r2: "reachable (notify 0 LoadError False loadingWorld)"
    using reachable_exec [OF loadingWorld_reachable en(1)] by simp
  have f: "failedWorld = snd (loadFile aRiv InitThrows exampleWorld)"
    by (simp add: failedWorld_def)
  from failure_only_in_status [OF r0, of aRiv InitThrows "''src:a.riv''" exampleWorld]
    failure_only_in_status [OF loadingWorld_reachable, of aRiv Starts _ _ 0 False ?c]
    failure_only_in_status [OF r2, of aRiv Starts]
    r0 loadingWorld_reachable g z en l
  show ?thesis by (simp add: f)
qed

section \<open>Cleanup is called on cached handles only (C10)\<close>

lemma loadFile_trace:
  "\<exists>ts. trace (snd (loadFile p beh w)) = trace w @ ts \<and> cleanupCalls ts = []"
proof -
  obtain k w1 where g: "getCacheKey p w = (k, w1)" by (cases "getCacheKey p w")
  note fr = getCacheKey_frame [OF g]
  show ?thesis
  proof (cases "map_of (cache w1) k")
    case (Some e)
    show ?thesis unfolding loadFile_hit [OF g Some] by (simp add: fr)
  next
    case None
    show ?thesis
    proof (cases "map_of (pendingLoads w1) k")
      case (Some pl)
      show ?thesis unfolding loadFile_join [OF g None Some] by (simp add: fr)
    next
      case pn: None
      show ?thesis
      proof (cases beh)
        case Starts
        show ?thesis unfolding Starts loadFile_miss_Starts [OF g None pn] by (simp add: fr)
      next
        case CtorThrows
        show ?thesis unfolding CtorThrows loadFile_miss_CtorThrows [OF g None pn] by (simp add: fr)
      next
        case InitThrows
        show ?thesis unfolding InitThrows loadFile_miss_InitThrows [OF g None pn] by (simp add: fr)
      qed
    qed
  qed
qed

lemma notify_trace:
  "\<exists>ts. trace (notify f ev t w) = trace w @ ts \<and> cleanupCalls ts = []"
proof (cases "map_of (listeners w) (f, ev)")
  case None
  show ?thesis unfolding notify_none [OF None] by simp
next
  case (Some c)
  show ?thesis
  proof (cases ev)
    case Load
    note c = Some [unfolded Load]
    show ?thesis
    proof (cases t)
      case True
      then have tt: "t = True" by simp
      show ?thesis unfolding Load tt notify_Load_throws [OF c] by simp
    next
      case False
      then have ff: "t = False" by simp
      show ?thesis unfolding Load ff notify_Load_ok [OF c] by simp
    qed
  next
    case LoadError
    note c = Some [unfolded LoadError]
    show ?thesis unfolding LoadError notify_LoadError [OF c] by simp
  qed
qed

lemma releaseFile_trace:
  "\<exists>ts. trace (snd (releaseFile p t w)) = trace w @ ts
        \<and> set (cleanupCalls ts) \<subseteq> (entryFile \<circ> snd) ` set (cache w)"
proof -
  obtain k w1 where g: "getCacheKey p w = (k, w1)" by (cases "getCacheKey p w")
  note fr = getCacheKey_frame [OF g]
  show ?thesis
  proof (cases "map_of (cache w1) k")
    case None
    show ?thesis unfolding releaseFile_miss [OF g None] by (simp add: fr)
  next
    case (Some e)
    then have m: "(k, e) \<in> set (cache w)" by (simp add: fr map_of_SomeD)
    then have f: "entryFile e \<in> (entryFile \<circ> snd) ` set (cache w)" by force
    show ?thesis
    proof (cases "1 < refCount e")
      case True
      show ?thesis unfolding releaseFile_keep [OF g Some True] by (simp add: fr)
    next
      case False
      then have le: "refCount e \<le> 1" by simp
      show ?thesis unfolding releaseFile_drop [OF g Some le] using f by (simp add: fr)
    qed
  qed
qed

lemma clearCache_trace:
  "\<exists>ts. trace (snd (clearCache t w)) = trace w @ ts
        \<and> set (cleanupCalls ts) \<subseteq> (entryFile \<circ> snd) ` set (cache w)"
  unfolding clearCache_eq by (simp add: cleanupCalls_cleanupEffects)

text \<open>
  C10: in a reachable world every handle on which the service has called \<open>cleanup\<close> had
  delivered its load notification, and none had delivered a load error or thrown from
  \<open>init\<close>. Step by step: an operation adds cleanup calls only for handles of entries
  that are in the cache map when it starts, and \<^verbatim>\<open>loadFile\<close> and the notification
  handlers add none; a \<^verbatim>\<open>loadFile\<close> call for a key that is not cached leaves the cache
  map as it was, however its handle behaves, and so does the load-error handler.
\<close>

theorem cleanup_only_for_cached:
  assumes "reachable w"
  shows "(\<forall>f t. Cleanup f t \<in> set (trace w) \<longrightarrow>
            Notify f Load \<in> set (trace w) \<and> Notify f LoadError \<notin> set (trace w)
            \<and> Init f True \<notin> set (trace w))
       \<and> (\<exists>ts. trace (exec op w) = trace w @ ts
             \<and> set (cleanupCalls ts) \<subseteq> (entryFile \<circ> snd) ` set (cache w)
             \<and> ((\<exists>params beh. op = LoadFile params beh) \<or> (\<exists>f ev t. op = Fire f ev t)
                   \<longrightarrow> cleanupCalls ts = []))
       \<and> (map_of (cache w) (fst (getCacheKey params w)) = None \<longrightarrow>
            cache (snd (loadFile params beh w)) = cache w)
       \<and> cache (notify f' LoadError t' w) = cache w"
proof -
  note i = reachable_inv [OF assms]
  note p = inv_parts [OF i]
  have a: "Notify f Load \<in> set (trace w) \<and> Notify f LoadError \<notin> set (trace w)
            \<and> Init f True \<notin> set (trace w)" if c: "Cleanup f t \<in> set (trace w)" for f t
  proof -
    from traceOkD(1) [OF p(6) c] have n: "Notify f Load \<in> set (trace w)" .
    from traceOkD(2) [OF p(6) n] have e: "Notify f LoadError \<notin> set (trace w)" .
    from traceOkD(3) [OF p(6) n] traceOkD(5) [OF p(6), of f Load]
    have "Init f True \<notin> set (trace w)" by auto
    with n e show ?thesis by simp
  qed
  have b: "\<exists>ts. trace (exec op w) = trace w @ ts
             \<and> set (cleanupCalls ts) \<subseteq> (entryFile \<circ> snd) ` set (cache w)
             \<and> ((\<exists>params beh. op = LoadFile params beh) \<or> (\<exists>f ev t. op = Fire f ev t)
                   \<longrightarrow> cleanupCalls ts = [])"
  proof (cases op)
    case (LoadFile q b)
    from loadFile_trace [of q b w] show ?thesis unfolding LoadFile by auto
  next
    case (ReleaseFile q b)
    from releaseFile_trace [of q b w] show ?thesis unfolding ReleaseFile by auto
  next
    case (ClearCache b)
    from clearCache_trace [of b w] show ?thesis unfolding ClearCache by auto
  next
    case (Fire g ev b)
    from notify_trace [of g ev b w] show ?thesis unfolding Fire by auto
  qed
  have c: "cache (snd (loadFile params beh w)) = cache w"
    if miss: "map_of (cache w) (fst (getCacheKey params w)) = None"
  proof -
    obtain k w1 where g: "getCacheKey params w = (k, w1)" by (cases "getCacheKey params w")
    note fr = getCacheKey_frame [OF g]
    from miss g have None: "map_of (cache w1) k = None" by (simp add: fr)
    show ?thesis
    proof (cases "map_of (pendingLoads w1) k")
      case (Some pl)
      show ?thesis unfolding loadFile_join [OF g None Some] by (simp add: fr)
    next
      case pn: None
      show ?thesis
      proof (cases beh)
        case Starts
        show ?thesis unfolding Starts loadFile_miss_Starts [OF g None pn] by (simp add: fr)
      next
        case CtorThrows
        show ?thesis unfolding CtorThrows loadFile_miss_CtorThrows [OF g None pn] by (simp add: fr)
      next
        case InitThrows
        show ?thesis unfolding InitThrows loadFile_miss_InitThrows [OF g None pn] by (simp add: fr)
      qed
    qed
  qed
  have d: "cache (notify f' LoadError t' w) = cache w"
  proof (cases "map_of (listeners w) (f', LoadError)")
    case None
    show ?thesis unfolding notify_none [OF None] by simp
  next
    case (Some c)
    show ?thesis unfolding notify_LoadError [OF Some] by simp
  qed
  from a b c d show ?thesis by blast
qed

lemma releasedWorld_trace:
  "trace releasedWorld =
     [Construct aRiv (Some 0), Init 0 False, On 0 Load, On 0 LoadError, Notify 0 Load, GetInstance 0 False,
      Construct bRiv (Some 1), Init 1 False, On 1 Load, On 1 LoadError, Notify 1 LoadError,
      Cleanup 0 False]"
  by (simp add: releasedWorld_def loadedWorld_eq svc_defs example_defs bRiv_def Let_def)

lemma releasedWorld_reachable: "reachable releasedWorld"
proof -
  have 1: "reachable (exec (LoadFile bRiv Starts) loadedWorld)"
    by (rule reachable_exec [OF loadedWorld_reachable]) simp
  have 2: "reachable (exec (Fire 1 LoadError False) (exec (LoadFile bRiv Starts) loadedWorld))"
    by (rule reachable_exec [OF 1])
       (simp add: loadedWorld_eq svc_defs example_defs bRiv_def Let_def notified_def)
  show ?thesis unfolding releasedWorld_def by (rule reachable_exec [OF 2]) simp
qed

text \<open>
  One handle loaded, cached and released, another failed: the trace holds a cleanup of
  the first and none of the second; and releasing the one cached file of \<open>loadedWorld\<close>
  cleans up the handle of its cache entry.
\<close>

theorem cleanup_only_for_cached_witness:
  "reachable releasedWorld \<and> reachable loadedWorld
   \<and> Cleanup 0 False \<in> set (trace releasedWorld)
   \<and> Notify 0 Load \<in> set (trace releasedWorld)
   \<and> Notify 1 LoadError \<in> set (trace releasedWorld)
   \<and> (\<forall>t. Cleanup 1 t \<notin> set (trace releasedWorld))
   \<and> (\<exists>ts. trace (exec (ReleaseFile aRiv False) loadedWorld) = trace loadedWorld @ ts
           \<and> set (cleanupCalls ts) \<subseteq> {0})
   \<and> cache (snd (loadFile bRiv InitThrows loadedWorld)) = cache loadedWorld
   \<and> cache (notify 0 LoadError False loadingWorld) = cache loadingWorld"
proof -
  have c: "(entryFile \<circ> snd) ` set (cache loadedWorld) = {0}" by (simp add: loadedWorld_eq)
  have k: "map_of (cache loadedWorld) (fst (getCacheKey bRiv loadedWorld)) = None"
    by (simp add: getCacheKey_def truthyString_def bRiv_def) (simp add: loadedWorld_eq)
  from cleanup_only_for_cached [OF releasedWorld_reachable, where op = "ClearCache (\<lambda>f. False)"
      and beh = Starts and params = aRiv and f' = 0 and t' = False]
  have "\<forall>f t. Cleanup f t \<in> set (trace releasedWorld) \<longrightarrow> Notify f LoadError \<notin> set (trace releasedWorld)"
    by blast
  moreover have "Notify 1 LoadError \<in> set (trace releasedWorld)"
    "Cleanup 0 False \<in> set (trace releasedWorld)" "Notify 0 Load \<in> set (trace releasedWorld)"
    by (simp_all add: releasedWorld_trace)
  ultimately have 1: "Cleanup 0 False \<in> set (trace releasedWorld)
   \<and> Notify 0 Load \<in> set (trace releasedWorld)
   \<and> Notify 1 LoadError \<in> set (trace releasedWorld)
   \<and> (\<forall>t. Cleanup 1 t \<notin> set (trace releasedWorld))" by blast
  from cleanup_only_for_cached [OF loadedWorld_reachable, where op = "ReleaseFile aRiv False"
      and beh = InitThrows and params = bRiv and f' = 0 and t' = False] k
  have 2: "(\<exists>ts. trace (exec (ReleaseFile aRiv False) loadedWorld) = trace loadedWorld @ ts
           \<and> set (cleanupCalls ts) \<subseteq> {0})"
    "cache (snd (loadFile bRiv InitThrows loadedWorld)) = cache loadedWorld"
    unfolding c by blast+
  from cleanup_only_for_cached [OF loadingWorld_reachable, where op = "ClearCache (\<lambda>f. False)"
      and beh = Starts and params = aRiv and f' = 0 and t' = False]
  have 3: "cache (notify 0 LoadError False loadingWorld) = cache loadingWorld" by blast
  from 1 2 3 releasedWorld_reachable loadedWorld_reachable show ?thesis by blast
qed

section \<open>Buffer identity (C7)\<close>

lemma getCacheKey_keeps_tag:
  assumes "tagsOk w" "getCacheKey p w = (k, w1)" "riveBufferId (heap w b) = Some n"
  shows "riveBufferId (heap w1 b) = Some n"
  using getCacheKey_cases [OF assms(2)] assms(3) tagsOk_bound [OF assms(1,3)]
  by (auto simp: truthyNumber_def)

lemma getCacheKey_buffer:
  assumes "tagsOk w" "getCacheKey p w = (k, w1)" "truthyString (src p) = None" "buffer p = Some b"
  shows "\<exists>n. riveBufferId (heap w1 b) = Some n \<and> k = ''buffer:'' @ decimal n"
  using assms
  by (auto simp: getCacheKey_def truthyNumber_def Let_def split: option.splits if_splits)

lemma getCacheKey_tagged:
  assumes "tagsOk w" "truthyString (src p) = None" "buffer p = Some b" "riveBufferId (heap w b) = Some n"
  shows "getCacheKey p w = (''buffer:'' @ decimal n, w)"
  using assms tagsOk_bound [OF assms(1,4)]
  by (simp add: getCacheKey_def truthyNumber_def)

lemma loadFile_heap:
  "heap (snd (loadFile p beh w)) = heap (snd (getCacheKey p w))
   \<and> bufferIdCounter (snd (loadFile p beh w)) = bufferIdCounter (snd (getCacheKey p w))"
proof -
  obtain k w1 where g: "getCacheKey p w = (k, w1)" by (cases "getCacheKey p w")
  show ?thesis
  proof (cases "map_of (cache w1) k")
    case (Some e)
    show ?thesis unfolding loadFile_hit [OF g Some] by (simp add: g)
  next
    case None
    show ?thesis
    proof (cases "map_of (pendingLoads w1) k")
      case (Some pl)
      show ?thesis unfolding loadFile_join [OF g None Some] by (simp add: g)
    next
      case pn: None
      show ?thesis
      proof (cases beh)
        case Starts
        show ?thesis unfolding Starts loadFile_miss_Starts [OF g None pn] by (simp add: g)
      next
        case CtorThrows
        show ?thesis unfolding CtorThrows loadFile_miss_CtorThrows [OF g None pn] by (simp add: g)
      next
        case InitThrows
        show ?thesis unfolding InitThrows loadFile_miss_InitThrows [OF g None pn] by (simp add: g)
      qed
    qed
  qed
qed

lemma releaseFile_heap:
  "heap (snd (releaseFile p t w)) = heap (snd (getCacheKey p w))
   \<and> bufferIdCounter (snd (releaseFile p t w)) = bufferIdCounter (snd (getCacheKey p w))"
proof -
  obtain k w1 where g: "getCacheKey p w = (k, w1)" by (cases "getCacheKey p w")
  show ?thesis
  proof (cases "map_of (cache w1) k")
    case None
    show ?thesis unfolding releaseFile_miss [OF g None] by (simp add: g)
  next
    case (Some e)
    show ?thesis
    proof (cases "1 < refCount e")
      case True
      show ?thesis unfolding releaseFile_keep [OF g Some True] by (simp add: g)
    next
      case False
      then have le: "refCount e \<le> 1" by simp
      show ?thesis unfolding releaseFile_drop [OF g Some le] by (simp add: g)
    qed
  qed
qed

lemma notify_heap:
  "heap (notify f ev t w) = heap w \<and> bufferIdCounter (notify f ev t w) = bufferIdCounter w"
proof (cases "map_of (listeners w) (f, ev)")
  case None
  show ?thesis unfolding notify_none [OF None] by simp
next
  case (Some c)
  show ?thesis
  proof (cases ev)
    case Load
    note c = Some [unfolded Load]
    show ?thesis
    proof (cases t)
      case True
      then have tt: "t = True" by simp
      show ?thesis unfolding Load tt notify_Load_throws [OF c] by simp
    next
      case False
      then have ff: "t = False" by simp
      show ?thesis unfolding Load ff notify_Load_ok [OF c] by simp
    qed
  next
    case LoadError
    note c = Some [unfolded LoadError]
    show ?thesis unfolding LoadError notify_LoadError [OF c] by simp
  qed
qed

lemma exec_keeps_tag:
  assumes "tagsOk w" "riveBufferId (heap w b) = Some n"
  shows "riveBufferId (heap (exec op w) b) = Some n \<and> bufferIdCounter w \<le> bufferIdCounter (exec op w)"
proof (cases op)
  case (LoadFile p beh)
  obtain k w1 where g: "getCacheKey p w = (k, w1)" by (cases "getCacheKey p w")
  from getCacheKey_keeps_tag [OF assms(1) g assms(2)] getCacheKey_counter_mono [OF g]
  show ?thesis unfolding LoadFile using loadFile_heap [of p beh w] by (simp add: g)
next
  case (ReleaseFile p t)
  obtain k w1 where g: "getCacheKey p w = (k, w1)" by (cases "getCacheKey p w")
  from getCacheKey_keeps_tag [OF assms(1) g assms(2)] getCacheKey_counter_mono [OF g]
  show ?thesis unfolding ReleaseFile using releaseFile_heap [of p t w] by (simp add: g)
next
  case (ClearCache t)
  show ?thesis unfolding ClearCache using assms(2) by (simp add: clearCache_eq)
next
  case (Fire f ev t)
  show ?thesis unfolding Fire using assms(2) notify_heap [of f ev t w] by simp
qed

lemma steps_keep_tag:
  assumes "steps w w'" "worldInv w" "riveBufferId (heap w b) = Some n"
  shows "riveBufferId (heap w' b) = Some n \<and> bufferIdCounter w \<le> bufferIdCounter w'"
  using assms
proof (induction rule: steps.induct)
  case (stay w)
  then show ?case by simp
next
  case (move w w1 op)
  from move.IH [OF move.prems] have t: "riveBufferId (heap w1 b) = Some n"
    and c: "bufferIdCounter w \<le> bufferIdCounter w1" by simp_all
  from steps_inv [OF move.hyps(1) move.prems(1)] have "tagsOk w1" by (simp add: worldInv_def)
  from exec_keeps_tag [OF this t, of op] c show ?case by simp
qed

text \<open>
  C7: parameters that carry a buffer and no (non-empty) \<open>src\<close>. Once \<^verbatim>\<open>loadFile\<close> or
  \<^verbatim>\<open>releaseFile\<close> has derived the key of buffer \<open>b1\<close> in a reachable world, the key is
  \<open>buffer:n\<close> for the tag \<open>n\<close> stored on the buffer, with \<open>n\<close> at most the counter; in
  every later world the same buffer object gives the same key, and every other buffer
  object \<open>b2\<close> gives a different key, whatever the bytes of the two buffers are.
\<close>

theorem buffer_key_is_object_identity:
  assumes "reachable w" "truthyString s1 = None" "truthyString s2 = None"
    and "op = LoadFile \<lparr> src = s1, buffer = Some b1 \<rparr> beh \<or> op = ReleaseFile \<lparr> src = s1, buffer = Some b1 \<rparr> t"
    and "steps (exec op w) w'"
  shows "fst (getCacheKey \<lparr> src = s1, buffer = Some b1 \<rparr> w')
           = fst (getCacheKey \<lparr> src = s1, buffer = Some b1 \<rparr> w)
       \<and> (b2 \<noteq> b1 \<longrightarrow> fst (getCacheKey \<lparr> src = s2, buffer = Some b2 \<rparr> w')
                         \<noteq> fst (getCacheKey \<lparr> src = s1, buffer = Some b1 \<rparr> w))
       \<and> (\<exists>n. 0 < n \<and> n \<le> bufferIdCounter w' \<and> riveBufferId (heap w' b1) = Some n
               \<and> fst (getCacheKey \<lparr> src = s1, buffer = Some b1 \<rparr> w) = ''buffer:'' @ decimal n)
       \<and> bufferIdCounter w \<le> bufferIdCounter w'"
proof -
  let ?p1 = "\<lparr> src = s1, buffer = Some b1 \<rparr>" and ?p2 = "\<lparr> src = s2, buffer = Some b2 \<rparr>"
  note i = reachable_inv [OF assms(1)]
  obtain k1 w1 where g1: "getCacheKey ?p1 w = (k1, w1)" by (cases "getCacheKey ?p1 w")
  from getCacheKey_buffer [OF inv_parts(2) [OF i] g1] assms(2)
  obtain n where n: "riveBufferId (heap w1 b1) = Some n" and k1: "k1 = ''buffer:'' @ decimal n"
    by auto
  have hA: "heap (exec op w) = heap w1" and cA: "bufferIdCounter (exec op w) = bufferIdCounter w1"
    using assms(4) loadFile_heap [of ?p1 beh w] releaseFile_heap [of ?p1 t w] g1 by auto
  have en: "enabled op w" using assms(4) by auto
  have iA: "worldInv (exec op w)" by (rule inv_exec [OF i en])
  from n hA have nA: "riveBufferId (heap (exec op w) b1) = Some n" by simp
  from steps_keep_tag [OF assms(5) iA nA]
  have n': "riveBufferId (heap w' b1) = Some n" and c': "bufferIdCounter (exec op w) \<le> bufferIdCounter w'"
    by simp_all
  have i': "worldInv w'" by (rule steps_inv [OF assms(5) iA])
  note t' = inv_parts(2) [OF i']
  have same: "getCacheKey ?p1 w' = (k1, w')"
    unfolding k1 by (rule getCacheKey_tagged [OF t' _ _ n']) (simp_all add: assms(2))
  have diff: "fst (getCacheKey ?p2 w') \<noteq> k1" if ne: "b2 \<noteq> b1"
  proof -
    obtain k2 w2 where g2: "getCacheKey ?p2 w' = (k2, w2)" by (cases "getCacheKey ?p2 w'")
    from getCacheKey_buffer [OF t' g2] assms(3)
    obtain m where m: "riveBufferId (heap w2 b2) = Some m" and k2: "k2 = ''buffer:'' @ decimal m"
      by auto
    from getCacheKey_keeps_tag [OF t' g2 n'] have n2: "riveBufferId (heap w2 b1) = Some n" .
    from tagsOk_inj [OF getCacheKey_tagsOk [OF t' g2] m, of b1] n2 ne have "m \<noteq> n" by auto
    then show ?thesis using decimal_inj by (auto simp: g2 k1 k2)
  qed
  from tagsOk_bound [OF t' n'] have b: "0 < n" "n \<le> bufferIdCounter w'" by simp_all
  from getCacheKey_counter_mono [OF g1] cA c' have mono: "bufferIdCounter w \<le> bufferIdCounter w'"
    by simp
  from same diff b n' mono show ?thesis by (auto simp: g1 k1)
qed

lemma decimal_digit: "n < 10 \<Longrightarrow> decimal n = [char_of (48 + n)]"
  by (simp add: decimal.simps)

lemma decimal_1: "decimal (Suc 0) = ''1''"
  by code_simp

text \<open>
  Two buffers with the same bytes on a new service: the first is loaded, then the second.
  The first buffer gets and keeps the key \<open>buffer:1\<close>, the second gets another key.
\<close>

theorem buffer_key_is_object_identity_witness:
  "reachable exampleWorld
   \<and> bytes (heap exampleWorld 0) = bytes (heap exampleWorld 1)
   \<and> steps (exec (LoadFile (bufferParams 0) Starts) exampleWorld)
            (exec (LoadFile (bufferParams 1) Starts) (exec (LoadFile (bufferParams 0) Starts) exampleWorld))
   \<and> fst (getCacheKey (bufferParams 0) exampleWorld) = ''buffer:1''
   \<and> fst (getCacheKey (bufferParams 0)
            (exec (LoadFile (bufferParams 1) Starts) (exec (LoadFile (bufferParams 0) Starts) exampleWorld)))
        = ''buffer:1''
   \<and> fst (getCacheKey (bufferParams 1)
            (exec (LoadFile (bufferParams 1) Starts) (exec (LoadFile (bufferParams 0) Starts) exampleWorld)))
        \<noteq> ''buffer:1''"
proof -
  let ?wA = "exec (LoadFile (bufferParams 0) Starts) exampleWorld"
  let ?w' = "exec (LoadFile (bufferParams 1) Starts) ?wA"
  have r: "reachable exampleWorld" unfolding exampleWorld_def by (rule reachable_init)
  have s: "steps ?wA ?w'" by (rule steps.move [OF steps.stay]) simp
  have k: "fst (getCacheKey (bufferParams 0) exampleWorld) = ''buffer:1''"
    by (simp add: example_defs Let_def decimal_1)
  have b: "bytes (heap exampleWorld 0) = bytes (heap exampleWorld 1)"
    by (simp add: example_defs)
  from buffer_key_is_object_identity [OF r, of None None "LoadFile (bufferParams 0) Starts" 0 Starts False ?w' 1]
    s r k b
  show ?thesis by (simp add: bufferParams_def truthyString_def)
qed

text \<open>
  In the earlier revision two buffers of the same length share one key, the case that
  the counter of the later revision removes.
\<close>

lemma getCacheKey_byteLength_same_length:
  "getCacheKey_byteLength (bufferParams 0) exampleWorld = getCacheKey_byteLength (bufferParams 1) exampleWorld"
  by (simp add: getCacheKey_byteLength_def example_defs)

section \<open>Releasing never throws (C9)\<close>

text \<open>
  Against C9 as stated: releasing a buffer that was never loaded finds no entry, yet
  the key derivation tags the buffer and moves the counter from 0 to 1.
\<close>

theorem releaseFile_unknown_buffer_counterexample:
  "map_of (cache exampleWorld) (fst (getCacheKey (bufferParams 0) exampleWorld)) = None
   \<and> bufferIdCounter exampleWorld = 0
   \<and> bufferIdCounter (snd (releaseFile (bufferParams 0) False exampleWorld)) = 1"
  by (simp add: svc_defs example_defs Let_def)

text \<open>
  C9, amended: \<^verbatim>\<open>releaseFile\<close> always returns normally. When the key of the parameters
  has no cache entry, the call does nothing beyond deriving the key: the cache map, the
  in-flight table and the trace are unchanged, and the buffer counter is unchanged
  unless the parameters hold a buffer, and no non-empty \<open>src\<close>, that carries no tag
  yet; then the key derivation tags the buffer and the counter goes up by one. When
  the release takes the \<open>refCount\<close> to zero or below and the cleanup throws, the call
  still returns normally, logs a warning, and the entry is removed from the cache map.
\<close>

theorem releaseFile_never_throws:
  "fst (releaseFile params cleanupThrows w) = Inr ()
   \<and> (map_of (cache w) (fst (getCacheKey params w)) = None \<longrightarrow>
        snd (releaseFile params cleanupThrows w) = snd (getCacheKey params w)
        \<and> cache (snd (releaseFile params cleanupThrows w)) = cache w
        \<and> pendingLoads (snd (releaseFile params cleanupThrows w)) = pendingLoads w
        \<and> trace (snd (releaseFile params cleanupThrows w)) = trace w
        \<and> bufferIdCounter (snd (releaseFile params cleanupThrows w))
            = (if truthyString (src params) = None
                  \<and> (\<exists>b. buffer params = Some b \<and> truthyNumber (riveBufferId (heap w b)) = None)
               then bufferIdCounter w + 1 else bufferIdCounter w))
   \<and> (map_of (cache w) (fst (getCacheKey params w)) = Some entry \<and> refCount entry \<le> 1 \<longrightarrow>
        fst (releaseFile params True w) = Inr ()
        \<and> map_of (cache (snd (releaseFile params True w))) (fst (getCacheKey params w)) = None
        \<and> trace (snd (releaseFile params True w))
            = trace w @ [Cleanup (entryFile entry) True, ConsoleWarn])"
proof -
  obtain k w1 where g: "getCacheKey params w = (k, w1)" by (cases "getCacheKey params w")
  note fr = getCacheKey_frame [OF g]
  have a: "fst (releaseFile params b w) = Inr ()" for b
  proof (cases "map_of (cache w1) k")
    case None
    show ?thesis by (simp add: releaseFile_miss [OF g None])
  next
    case (Some e)
    show ?thesis
    proof (cases "1 < refCount e")
      case True
      show ?thesis by (simp add: releaseFile_keep [OF g Some True])
    next
      case False
      then have le: "refCount e \<le> 1" by simp
      show ?thesis by (simp add: releaseFile_drop [OF g Some le])
    qed
  qed
  have cnt: "bufferIdCounter w1
            = (if truthyString (src params) = None
                  \<and> (\<exists>b. buffer params = Some b \<and> truthyNumber (riveBufferId (heap w b)) = None)
               then bufferIdCounter w + 1 else bufferIdCounter w)"
    using g by (auto simp: getCacheKey_def Let_def split: option.splits)
  have b: "snd (releaseFile params cleanupThrows w) = w1" if "map_of (cache w) k = None"
    using that by (simp add: releaseFile_miss [OF g] fr)
  have c: "map_of (cache (snd (releaseFile params True w))) k = None
        \<and> trace (snd (releaseFile params True w)) = trace w @ [Cleanup (entryFile entry) True, ConsoleWarn]"
    if e: "map_of (cache w) k = Some entry" and le: "refCount entry \<le> 1"
  proof -
    from e have e1: "map_of (cache w1) k = Some entry" by (simp add: fr)
    show ?thesis unfolding releaseFile_drop [OF g e1 le] by (simp add: delete_conv' fr)
  qed
  from a b c cnt show ?thesis by (simp add: g fr)
qed

text \<open>
  Releasing \<^verbatim>\<open>a.riv\<close> on a new service changes nothing; releasing the cached
  \<^verbatim>\<open>a.riv\<close> with a throwing cleanup returns normally and removes the entry.
\<close>

theorem releaseFile_never_throws_witness:
  "map_of (cache exampleWorld) (fst (getCacheKey aRiv exampleWorld)) = None
   \<and> releaseFile aRiv False exampleWorld = (Inr (), exampleWorld)
   \<and> bufferIdCounter (snd (releaseFile (bufferParams 0) False exampleWorld)) = bufferIdCounter exampleWorld + 1
   \<and> map_of (cache loadedWorld) (fst (getCacheKey aRiv loadedWorld))
        = Some \<lparr> entryFile = 0, state = ReadonlySignal 0, refCount = 1 \<rparr>
   \<and> fst (releaseFile aRiv True loadedWorld) = Inr ()
   \<and> map_of (cache (snd (releaseFile aRiv True loadedWorld))) ''src:a.riv'' = None
   \<and> trace (snd (releaseFile aRiv True loadedWorld)) = trace loadedWorld @ [Cleanup 0 True, ConsoleWarn]"
proof -
  have g0: "getCacheKey aRiv exampleWorld = (''src:a.riv'', exampleWorld)"
    and g1: "getCacheKey aRiv loadedWorld = (''src:a.riv'', loadedWorld)"
    by (simp_all add: getCacheKey_def truthyString_def aRiv_def)
  have n: "map_of (cache exampleWorld) (fst (getCacheKey aRiv exampleWorld)) = None"
    by (simp add: g0) (simp add: example_defs)
  have nb: "map_of (cache exampleWorld) (fst (getCacheKey (bufferParams 0) exampleWorld)) = None"
    by (simp add: example_defs Let_def)
  have u: "truthyString (src (bufferParams 0)) = None
        \<and> (\<exists>b. buffer (bufferParams 0) = Some b \<and> truthyNumber (riveBufferId (heap exampleWorld b)) = None)"
    by (simp add: example_defs)
  have e: "map_of (cache loadedWorld) (fst (getCacheKey aRiv loadedWorld))
        = Some \<lparr> entryFile = 0, state = ReadonlySignal 0, refCount = 1 \<rparr>"
    by (simp add: g1) (simp add: loadedWorld_eq)
  from releaseFile_never_throws [of aRiv False exampleWorld] n
  have 1: "releaseFile aRiv False exampleWorld = (Inr (), exampleWorld)"
    by (simp add: g0 prod_eq_iff)
  from releaseFile_never_throws [of "bufferParams 0" False exampleWorld] nb
  have "bufferIdCounter (snd (releaseFile (bufferParams 0) False exampleWorld))
          = (if truthyString (src (bufferParams 0)) = None
        \<and> (\<exists>b. buffer (bufferParams 0) = Some b \<and> truthyNumber (riveBufferId (heap exampleWorld b)) = None)
             then bufferIdCounter exampleWorld + 1 else bufferIdCounter exampleWorld)"
    by blast
  then have 2: "bufferIdCounter (snd (releaseFile (bufferParams 0) False exampleWorld)) = bufferIdCounter exampleWorld + 1"
    unfolding if_P [OF u] .
  from releaseFile_never_throws [of aRiv True loadedWorld "\<lparr> entryFile = 0, state = ReadonlySignal 0, refCount = 1 \<rparr>"] e
  have 3: "fst (releaseFile aRiv True loadedWorld) = Inr ()
   \<and> map_of (cache (snd (releaseFile aRiv True loadedWorld))) ''src:a.riv'' = None
   \<and> trace (snd (releaseFile aRiv True loadedWorld)) = trace loadedWorld @ [Cleanup 0 True, ConsoleWarn]"
    by (simp add: g1)
  from n 1 2 e 3 show ?thesis by simp
qed

section \<open>Loads in progress\<close>

lemma pendingOkD:
  "pendingOk w \<Longrightarrow> map_of (listeners w) (f, ev) = Some c \<Longrightarrow> \<not> notified f w \<Longrightarrow>
     map_of (pendingLoads w) (cl_cacheKey c) = Some \<lparr> stateSignal = cl_stateSignal c, promise = cl_resolve c \<rparr>"
  unfolding pendingOk_def by blast

lemma pendingOkI:
  assumes "\<And>f ev c. map_of (listeners w) (f, ev) = Some c \<Longrightarrow> \<not> notified f w \<Longrightarrow>
     map_of (pendingLoads w) (cl_cacheKey c) = Some \<lparr> stateSignal = cl_stateSignal c, promise = cl_resolve c \<rparr>"
  shows "pendingOk w"
  using assms unfolding pendingOk_def by blast

lemma pendingOk_frame:
  assumes "pendingOk w" "listeners w' = listeners w" "pendingLoads w' = pendingLoads w"
    "set (trace w) \<subseteq> set (trace w')"
  shows "pendingOk w'"
proof (rule pendingOkI)
  fix f ev c assume l: "map_of (listeners w') (f, ev) = Some c" and n: "\<not> notified f w'"
  from n assms(4) have "\<not> notified f w" by (auto simp: notified_def)
  with pendingOkD [OF assms(1), of f ev c] l show
    "map_of (pendingLoads w') (cl_cacheKey c) = Some \<lparr> stateSignal = cl_stateSignal c, promise = cl_resolve c \<rparr>"
    by (simp add: assms(2,3))
qed

lemma pendingOk_getCacheKey:
  assumes "pendingOk w" "getCacheKey p w = (k, w1)"
  shows "pendingOk w1"
  using assms(1) by (rule pendingOk_frame) (simp_all add: getCacheKey_frame [OF assms(2)])

lemma pendingOk_add:
  assumes "pendingOk w" "map_of (pendingLoads w) k = None" "listenersOk w"
    and l: "\<And>f ev c. map_of (listeners w') (f, ev) = Some c \<Longrightarrow>
             (f = handles w \<and> cl_cacheKey c = k \<and> pl = \<lparr> stateSignal = cl_stateSignal c, promise = cl_resolve c \<rparr>)
             \<or> map_of (listeners w) (f, ev) = Some c"
    and p: "pendingLoads w' = AList.update k pl (pendingLoads w)"
    and t: "set (trace w) \<subseteq> set (trace w')"
  shows "pendingOk w'"
proof (rule pendingOkI)
  fix f ev c assume lc: "map_of (listeners w') (f, ev) = Some c" and n: "\<not> notified f w'"
  from n t have n0: "\<not> notified f w" by (auto simp: notified_def)
  from l [OF lc] show
    "map_of (pendingLoads w') (cl_cacheKey c) = Some \<lparr> stateSignal = cl_stateSignal c, promise = cl_resolve c \<rparr>"
  proof
    assume "f = handles w \<and> cl_cacheKey c = k \<and> pl = \<lparr> stateSignal = cl_stateSignal c, promise = cl_resolve c \<rparr>"
    then show ?thesis by (simp add: p update_conv')
  next
    assume old: "map_of (listeners w) (f, ev) = Some c"
    from pendingOkD [OF assms(1) old n0] assms(2) have "cl_cacheKey c \<noteq> k" by auto
    with pendingOkD [OF assms(1) old n0] show ?thesis by (simp add: p update_conv')
  qed
qed

lemma pendingOk_loadFile:
  assumes "worldInv w" "pendingOk w"
  shows "pendingOk (snd (loadFile p beh w))"
proof -
  obtain k w1 where g: "getCacheKey p w = (k, w1)" by (cases "getCacheKey p w")
  note i1 = getCacheKey_inv [OF assms(1) g]
  note p1 = pendingOk_getCacheKey [OF assms(2) g]
  note lo = inv_parts(4) [OF i1]
  show ?thesis
  proof (cases "map_of (cache w1) k")
    case (Some e)
    show ?thesis unfolding loadFile_hit [OF g Some] snd_conv
      using p1 by (rule pendingOk_frame) simp_all
  next
    case None
    show ?thesis
    proof (cases "map_of (pendingLoads w1) k")
      case (Some pl)
      show ?thesis unfolding loadFile_join [OF g None Some] snd_conv by (rule p1)
    next
      case pn: None
      show ?thesis
      proof (cases beh)
        case Starts
        show ?thesis unfolding Starts loadFile_miss_Starts [OF g None pn] snd_conv
        proof (rule pendingOk_add [OF p1 pn lo])
          fix f ev c
          assume "map_of (listeners (w1\<lparr> pendingLoads := AList.update k \<lparr> stateSignal = length (signals w1), promise = length (promises w1) \<rparr> (pendingLoads w1),
          signals := signals w1 @ [\<lparr> riveFile = None, status = Loading \<rparr>],
          promises := promises w1 @ [Pending],
          handles := handles w1 + 1,
          listeners := AList.update (handles w1, LoadError)
              \<lparr> cl_file = handles w1, cl_stateSignal = length (signals w1), cl_cacheKey = k, cl_resolve = length (promises w1) \<rparr>
              (AList.update (handles w1, Load)
                 \<lparr> cl_file = handles w1, cl_stateSignal = length (signals w1), cl_cacheKey = k, cl_resolve = length (promises w1) \<rparr>
                 (listeners w1)),
          trace := trace w1 @ [Construct p (Some (handles w1)), Init (handles w1) False,
                              On (handles w1) Load, On (handles w1) LoadError] \<rparr>)) (f, ev) = Some c"
          then show "(f = handles w1 \<and> cl_cacheKey c = k \<and>
                \<lparr> stateSignal = length (signals w1), promise = length (promises w1) \<rparr>
                  = \<lparr> stateSignal = cl_stateSignal c, promise = cl_resolve c \<rparr>)
             \<or> map_of (listeners w1) (f, ev) = Some c"
            by (auto simp: update_conv' split: if_splits)
        qed auto
      next
        case CtorThrows
        show ?thesis unfolding CtorThrows loadFile_miss_CtorThrows [OF g None pn] snd_conv
          by (rule pendingOk_add [OF p1 pn lo]) auto
      next
        case InitThrows
        show ?thesis unfolding InitThrows loadFile_miss_InitThrows [OF g None pn] snd_conv
          by (rule pendingOk_add [OF p1 pn lo]) auto
      qed
    qed
  qed
qed

lemma pendingOk_releaseFile:
  assumes "pendingOk w"
  shows "pendingOk (snd (releaseFile p t w))"
proof -
  obtain k w1 where g: "getCacheKey p w = (k, w1)" by (cases "getCacheKey p w")
  note p1 = pendingOk_getCacheKey [OF assms g]
  show ?thesis
  proof (cases "map_of (cache w1) k")
    case None
    show ?thesis unfolding releaseFile_miss [OF g None] snd_conv by (rule p1)
  next
    case (Some e)
    show ?thesis
    proof (cases "1 < refCount e")
      case True
      show ?thesis unfolding releaseFile_keep [OF g Some True] snd_conv
        using p1 by (rule pendingOk_frame) simp_all
    next
      case False
      then have le: "refCount e \<le> 1" by simp
      show ?thesis unfolding releaseFile_drop [OF g Some le] snd_conv
        using p1 by (rule pendingOk_frame) simp_all
    qed
  qed
qed

lemma pendingOk_clearCache:
  assumes "pendingOk w"
  shows "pendingOk (snd (clearCache t w))"
  unfolding clearCache_eq snd_conv using assms by (rule pendingOk_frame) simp_all

lemma pendingOk_settled:
  assumes "worldInv w" "pendingOk w" "map_of (listeners w) (f, ev) = Some c" "\<not> notified f w"
    and l: "listeners w' = listeners w"
    and p: "pendingLoads w' = AList.delete (cl_cacheKey c) (pendingLoads w)"
    and t: "Notify f ev \<in> set (trace w')" "set (trace w) \<subseteq> set (trace w')"
  shows "pendingOk w'"
proof (rule pendingOkI)
  fix f' ev' c' assume lc: "map_of (listeners w') (f', ev') = Some c'" and n: "\<not> notified f' w'"
  from n t(2) have n0: "\<not> notified f' w" by (auto simp: notified_def)
  from n t(1) have ne: "f' \<noteq> f" by (cases ev) (auto simp: notified_def)
  from lc l have old: "map_of (listeners w) (f', ev') = Some c'" by simp
  note lo = inv_parts(4) [OF assms(1)]
  have sig: "cl_stateSignal c' \<noteq> cl_stateSignal c"
    using listenersOkD(5) [OF lo assms(3) old] ne by auto
  have "cl_cacheKey c' \<noteq> cl_cacheKey c"
    using pendingOkD [OF assms(2) old n0] pendingOkD [OF assms(2,3,4)] sig by auto
  then show "map_of (pendingLoads w') (cl_cacheKey c') = Some \<lparr> stateSignal = cl_stateSignal c', promise = cl_resolve c' \<rparr>"
    using pendingOkD [OF assms(2) old n0] by (simp add: p delete_conv')
qed

lemma pendingOk_notify:
  assumes "worldInv w" "pendingOk w" "map_of (listeners w) (f, ev) \<noteq> None" "\<not> notified f w"
  shows "pendingOk (notify f ev t w)"
proof -
  from assms(3) obtain c where c: "map_of (listeners w) (f, ev) = Some c" by blast
  show ?thesis
  proof (cases ev)
    case Load
    note c' = c [unfolded Load]
    show ?thesis
    proof (cases t)
      case True
      then have tt: "t = True" by simp
      have "pendingOk (w\<lparr> trace := trace w @ [Notify f Load, GetInstance (cl_file c) True] \<rparr>)"
        using assms(2) by (rule pendingOk_frame) auto
      then show ?thesis unfolding Load tt notify_Load_throws [OF c'] .
    next
      case False
      then have ff: "t = False" by simp
      show ?thesis unfolding Load ff notify_Load_ok [OF c']
        by (rule pendingOk_settled [OF assms(1,2) c' assms(4)]) auto
    qed
  next
    case LoadError
    note c' = c [unfolded LoadError]
    show ?thesis unfolding LoadError notify_LoadError [OF c']
      by (rule pendingOk_settled [OF assms(1,2) c' assms(4)]) auto
  qed
qed

lemma pendingOk_exec:
  assumes "worldInv w" "pendingOk w" "enabled op w"
  shows "pendingOk (exec op w)"
  using assms
  by (cases op) (simp_all add: pendingOk_loadFile pendingOk_releaseFile pendingOk_clearCache pendingOk_notify)

lemma pendingOk_initWorld: "pendingOk (initWorld content)"
  by (simp add: pendingOk_def initWorld_def)

lemma steps_pendingOk: "steps w w' \<Longrightarrow> worldInv w \<Longrightarrow> pendingOk w \<Longrightarrow> pendingOk w'"
proof (induction rule: steps.induct)
  case (stay w)
  then show ?case by simp
next
  case (move w w1 op)
  from move.IH [OF move.prems] have p: "pendingOk w1" .
  from steps_inv [OF move.hyps(1) move.prems(1)] have i: "worldInv w1" .
  show ?case by (rule pendingOk_exec [OF i p move.hyps(2)])
qed

lemma reachable_pendingOk: "reachable w \<Longrightarrow> pendingOk w"
  unfolding reachable_def using steps_pendingOk inv_initWorld pendingOk_initWorld by blast

section \<open>Concurrent loads share one episode (C1)\<close>

lemma exec_listeners:
  assumes "worldInv w" "map_of (listeners w) fe = Some c"
  shows "map_of (listeners (exec op w)) fe = Some c"
proof (cases op)
  case (LoadFile p beh)
  obtain k w1 where g: "getCacheKey p w = (k, w1)" by (cases "getCacheKey p w")
  note fr = getCacheKey_frame [OF g]
  note lo = inv_parts(4) [OF assms(1)]
  obtain f ev where fe: "fe = (f, ev)" by (cases fe)
  from listenersOkD(2) [OF lo assms(2) [unfolded fe]] have ne: "f \<noteq> handles w" by simp
  show ?thesis
  proof (cases "map_of (cache w1) k")
    case (Some e)
    show ?thesis unfolding LoadFile exec.simps loadFile_hit [OF g Some] using assms(2) by (simp add: fr)
  next
    case None
    show ?thesis
    proof (cases "map_of (pendingLoads w1) k")
      case (Some pl)
      show ?thesis unfolding LoadFile exec.simps loadFile_join [OF g None Some] using assms(2) by (simp add: fr)
    next
      case pn: None
      show ?thesis
      proof (cases beh)
        case Starts
        show ?thesis unfolding LoadFile exec.simps Starts loadFile_miss_Starts [OF g None pn]
          using assms(2) ne by (simp add: fr fe update_conv')
      next
        case CtorThrows
        show ?thesis unfolding LoadFile exec.simps CtorThrows loadFile_miss_CtorThrows [OF g None pn]
          using assms(2) by (simp add: fr)
      next
        case InitThrows
        show ?thesis unfolding LoadFile exec.simps InitThrows loadFile_miss_InitThrows [OF g None pn]
          using assms(2) by (simp add: fr)
      qed
    qed
  qed
next
  case (ReleaseFile p t)
  obtain k w1 where g: "getCacheKey p w = (k, w1)" by (cases "getCacheKey p w")
  note fr = getCacheKey_frame [OF g]
  show ?thesis
  proof (cases "map_of (cache w1) k")
    case None
    show ?thesis unfolding ReleaseFile exec.simps releaseFile_miss [OF g None] using assms(2) by (simp add: fr)
  next
    case (Some e)
    show ?thesis
    proof (cases "1 < refCount e")
      case True
      show ?thesis unfolding ReleaseFile exec.simps releaseFile_keep [OF g Some True]
        using assms(2) by (simp add: fr)
    next
      case False
      then have le: "refCount e \<le> 1" by simp
      show ?thesis unfolding ReleaseFile exec.simps releaseFile_drop [OF g Some le]
        using assms(2) by (simp add: fr)
    qed
  qed
next
  case (ClearCache t)
  show ?thesis unfolding ClearCache exec.simps clearCache_eq using assms(2) by simp
next
  case (Fire f ev t)
  have "listeners (notify f ev t w) = listeners w"
  proof (cases "map_of (listeners w) (f, ev)")
    case None
    show ?thesis unfolding notify_none [OF None] by simp
  next
    case (Some c)
    show ?thesis
    proof (cases ev)
      case Load
      note c = Some [unfolded Load]
      show ?thesis
      proof (cases t)
        case True
        then have tt: "t = True" by simp
        show ?thesis unfolding Load tt notify_Load_throws [OF c] by simp
      next
        case False
        then have ff: "t = False" by simp
        show ?thesis unfolding Load ff notify_Load_ok [OF c] by simp
      qed
    next
      case LoadError
      note c = Some [unfolded LoadError]
      show ?thesis unfolding LoadError notify_LoadError [OF c] by simp
    qed
  qed
  then show ?thesis unfolding Fire exec.simps using assms(2) by simp
qed

lemma steps_listeners:
  assumes "steps w w'" "worldInv w" "map_of (listeners w) fe = Some c"
  shows "map_of (listeners w') fe = Some c"
  using assms
proof (induction rule: steps.induct)
  case (stay w)
  then show ?case by simp
next
  case (move w w1 op)
  from steps_inv [OF move.hyps(1) move.prems(1)] have i: "worldInv w1" .
  show ?case by (rule exec_listeners [OF i move.IH [OF move.prems]])
qed

lemma getCacheKey_fixed:
  assumes "getCacheKey p w = (k, w)"
  shows "(\<exists>s. truthyString (src p) = Some s \<and> k = ''src:'' @ s)
       \<or> (truthyString (src p) = None \<and> buffer p = None \<and> k = ''unknown'')
       \<or> (\<exists>b n. truthyString (src p) = None \<and> buffer p = Some b
                \<and> riveBufferId (heap w b) = Some n \<and> k = ''buffer:'' @ decimal n)"
proof -
  have "bufferIdCounter w' = bufferIdCounter w + 1 \<Longrightarrow> w' \<noteq> w" for w' by auto
  then show ?thesis using assms
    by (auto simp: getCacheKey_def truthyNumber_def Let_def split: option.splits if_splits)
qed

lemma steps_getCacheKey:
  assumes "steps w w'" "worldInv w" "getCacheKey p w = (k, w)"
  shows "getCacheKey p w' = (k, w')"
proof -
  from getCacheKey_fixed [OF assms(3)] show ?thesis
  proof (elim disjE exE conjE)
    fix s assume "truthyString (src p) = Some s" "k = ''src:'' @ s"
    then show ?thesis by (simp add: getCacheKey_def)
  next
    assume "truthyString (src p) = None" "buffer p = None" "k = ''unknown''"
    then show ?thesis by (simp add: getCacheKey_def)
  next
    fix b n assume buf: "truthyString (src p) = None" "buffer p = Some b"
        "riveBufferId (heap w b) = Some n" "k = ''buffer:'' @ decimal n"
    from steps_keep_tag [OF assms(1,2) buf(3)] have t: "riveBufferId (heap w' b) = Some n" by simp
    from steps_inv [OF assms(1,2)] have "tagsOk w'" by (simp add: worldInv_def)
    from getCacheKey_tagged [OF this buf(1,2) t] buf(4) show ?thesis by simp
  qed
qed

text \<open>
  C1: in a reachable world, a \<^verbatim>\<open>loadFile\<close> call that misses and starts a load
  constructs one handle and calls \<open>init\<close> on it once. Whatever operations follow, as
  long as that handle has not been notified, a further \<^verbatim>\<open>loadFile\<close> call with the same
  parameters returns the same state reference and leaves the world as it is: it
  constructs nothing and changes no \<open>refCount\<close>. When the load then settles, the one
  state that both calls returned reads \<open>Success\<close> with the handle, or \<open>Failed\<close>.
\<close>

theorem loadFile_dedup:
  assumes "reachable w" "getCacheKey params w = (cacheKey, w1)"
    and "map_of (cache w1) cacheKey = None" "map_of (pendingLoads w1) cacheKey = None"
    and "steps (snd (loadFile params Starts w)) w'" "\<not> notified (handles w) w'"
  shows "fst (loadFile params Starts w) = Inr (ReadonlySignal (length (signals w)))
       \<and> trace (snd (loadFile params Starts w))
           = trace w @ [Construct params (Some (handles w)), Init (handles w) False,
                        On (handles w) Load, On (handles w) LoadError]
       \<and> constructCalls (trace (snd (loadFile params Starts w))) = constructCalls (trace w) @ [params]
       \<and> initCalls (trace (snd (loadFile params Starts w))) = initCalls (trace w) @ [handles w]
       \<and> loadFile params beh w' = (Inr (ReadonlySignal (length (signals w))), w')
       \<and> readSignal (ReadonlySignal (length (signals w))) (notify (handles w) Load False w')
            = Some \<lparr> riveFile = Some (handles w), status = Success \<rparr>
       \<and> readSignal (ReadonlySignal (length (signals w))) (notify (handles w) LoadError t w')
            = Some \<lparr> riveFile = None, status = Failed \<rparr>"
proof -
  note fr = getCacheKey_frame [OF assms(2)]
  let ?c = "\<lparr> cl_file = handles w, cl_stateSignal = length (signals w), cl_cacheKey = cacheKey,
              cl_resolve = length (promises w) \<rparr>"
  let ?wA = "snd (loadFile params Starts w)"
  have wA: "?wA = w1\<lparr> pendingLoads := AList.update cacheKey
                          \<lparr> stateSignal = length (signals w), promise = length (promises w) \<rparr> (pendingLoads w),
          signals := signals w @ [\<lparr> riveFile = None, status = Loading \<rparr>],
          promises := promises w @ [Pending],
          handles := handles w + 1,
          listeners := AList.update (handles w, LoadError) ?c (AList.update (handles w, Load) ?c (listeners w)),
          trace := trace w @ [Construct params (Some (handles w)), Init (handles w) False,
                              On (handles w) Load, On (handles w) LoadError] \<rparr>"
    and r1: "fst (loadFile params Starts w) = Inr (ReadonlySignal (length (signals w)))"
    using loadFile_miss_Starts [OF assms(2-4)] by (simp_all add: fr)
  have rA: "reachable ?wA" using reachable_exec [OF assms(1), of "LoadFile params Starts"] by simp
  note iA = reachable_inv [OF rA]
  have r': "reachable w'" by (rule reachable_steps [OF rA assms(5)])
  note i' = reachable_inv [OF r']
  have gA: "getCacheKey params ?wA = (cacheKey, ?wA)"
    by (rule getCacheKey_again [OF assms(2)]) (simp_all add: wA)
  have g': "getCacheKey params w' = (cacheKey, w')"
    by (rule steps_getCacheKey [OF assms(5) iA gA])
  have lA: "map_of (listeners ?wA) (handles w, ev) = Some ?c" for ev
    by (cases ev) (simp_all add: wA update_conv')
  have l': "map_of (listeners w') (handles w, ev) = Some ?c" for ev
    by (rule steps_listeners [OF assms(5) iA lA])
  from pendingOkD [OF reachable_pendingOk [OF r'] l' assms(6)]
  have p': "map_of (pendingLoads w') cacheKey
              = Some \<lparr> stateSignal = length (signals w), promise = length (promises w) \<rparr>"
    by simp
  from disjointD [OF inv_parts(1) [OF i'], of cacheKey] p'
  have c': "map_of (cache w') cacheKey = None" by (cases "map_of (cache w') cacheKey") auto
  have second: "loadFile params beh w' = (Inr (ReadonlySignal (length (signals w))), w')"
    using loadFile_join [OF g' c' p'] by simp
  from listenersOkD(3) [OF inv_parts(4) [OF i'] l']
  have s': "length (signals w) < length (signals w')" by simp
  have ok: "readSignal (ReadonlySignal (length (signals w))) (notify (handles w) Load False w')
            = Some \<lparr> riveFile = Some (handles w), status = Success \<rparr>"
    unfolding notify_Load_ok [OF l'] using s' by (simp add: readSignal_def)
  have bad: "readSignal (ReadonlySignal (length (signals w))) (notify (handles w) LoadError t w')
            = Some \<lparr> riveFile = None, status = Failed \<rparr>"
    unfolding notify_LoadError [OF l'] using s' by (simp add: readSignal_def)
  have tr: "trace ?wA = trace w @ [Construct params (Some (handles w)), Init (handles w) False,
                                On (handles w) Load, On (handles w) LoadError]"
    by (simp add: wA)
  show ?thesis using r1 second ok bad by (simp add: tr)
qed

lemma twoLoadingWorld_eq:
  "twoLoadingWorld =
     \<lparr> cache = [], pendingLoads = [(''src:a.riv'', \<lparr> stateSignal = 0, promise = 0 \<rparr>),
                                   (''src:b.riv'', \<lparr> stateSignal = 1, promise = 1 \<rparr>)],
       bufferIdCounter = 0, heap = (\<lambda>b. \<lparr> bytes = [0x52, 0x49, 0x56, 0x45], riveBufferId = None \<rparr>),
       signals = [\<lparr> riveFile = None, status = Loading \<rparr>, \<lparr> riveFile = None, status = Loading \<rparr>],
       promises = [Pending, Pending], handles = 2,
       listeners = [((0, Load), \<lparr> cl_file = 0, cl_stateSignal = 0, cl_cacheKey = ''src:a.riv'', cl_resolve = 0 \<rparr>),
                    ((0, LoadError), \<lparr> cl_file = 0, cl_stateSignal = 0, cl_cacheKey = ''src:a.riv'', cl_resolve = 0 \<rparr>),
                    ((1, Load), \<lparr> cl_file = 1, cl_stateSignal = 1, cl_cacheKey = ''src:b.riv'', cl_resolve = 1 \<rparr>),
                    ((1, LoadError), \<lparr> cl_file = 1, cl_stateSignal = 1, cl_cacheKey = ''src:b.riv'', cl_resolve = 1 \<rparr>)],
       trace = [Construct aRiv (Some 0), Init 0 False, On 0 Load, On 0 LoadError,
                Construct bRiv (Some 1), Init 1 False, On 1 Load, On 1 LoadError] \<rparr>"
  by (simp add: twoLoadingWorld_def loadingWorld_eq svc_defs example_defs bRiv_def Let_def)

text \<open>
  \<^verbatim>\<open>loadFile\<close> of \<^verbatim>\<open>a.riv\<close> on a new service, then \<^verbatim>\<open>loadFile\<close> of \<^verbatim>\<open>b.riv\<close>, then
  \<^verbatim>\<open>loadFile\<close> of \<^verbatim>\<open>a.riv\<close> again: one construction for \<^verbatim>\<open>a.riv\<close>, the same state
  reference, and the second call changes nothing.
\<close>

theorem loadFile_dedup_witness:
  "reachable exampleWorld
   \<and> getCacheKey aRiv exampleWorld = (''src:a.riv'', exampleWorld)
   \<and> map_of (cache exampleWorld) ''src:a.riv'' = None
   \<and> map_of (pendingLoads exampleWorld) ''src:a.riv'' = None
   \<and> steps (snd (loadFile aRiv Starts exampleWorld)) twoLoadingWorld
   \<and> \<not> notified 0 twoLoadingWorld
   \<and> fst (loadFile aRiv Starts exampleWorld) = Inr (ReadonlySignal 0)
   \<and> constructCalls (trace (snd (loadFile aRiv Starts exampleWorld))) = [aRiv]
   \<and> initCalls (trace (snd (loadFile aRiv Starts exampleWorld))) = [0]
   \<and> loadFile aRiv Starts twoLoadingWorld = (Inr (ReadonlySignal 0), twoLoadingWorld)
   \<and> readSignal (ReadonlySignal 0) (notify 0 Load False twoLoadingWorld)
        = Some \<lparr> riveFile = Some 0, status = Success \<rparr>
   \<and> readSignal (ReadonlySignal 0) (notify 0 LoadError False twoLoadingWorld)
        = Some \<lparr> riveFile = None, status = Failed \<rparr>"
proof -
  have r: "reachable exampleWorld" unfolding exampleWorld_def by (rule reachable_init)
  have g: "getCacheKey aRiv exampleWorld = (''src:a.riv'', exampleWorld)"
    by (simp add: getCacheKey_def truthyString_def aRiv_def)
  have c: "map_of (cache exampleWorld) ''src:a.riv'' = None"
    and p: "map_of (pendingLoads exampleWorld) ''src:a.riv'' = None"
    by (simp_all add: exampleWorld_def initWorld_def)
  have s: "steps (snd (loadFile aRiv Starts exampleWorld)) twoLoadingWorld"
    using steps.move [OF steps.stay, of "LoadFile bRiv Starts" loadingWorld]
    by (simp add: twoLoadingWorld_def loadingWorld_def)
  have n: "\<not> notified 0 twoLoadingWorld" by (simp add: twoLoadingWorld_eq notified_def)
  have z: "signals exampleWorld = []" "handles exampleWorld = 0" "trace exampleWorld = []"
    by (simp_all add: exampleWorld_def initWorld_def)
  from loadFile_dedup [OF r g c p s, of Starts False] n r g c p s
  show ?thesis by (simp add: z)
qed

end
